theory Spec2Isabelle
  imports Complex_Main "HOL-Library.Product_Lexorder" "HOL-Library.Multiset"
begin

section \<open>Geometry used by the nesting engine\<close>

text \<open>
  The engine of \<^verbatim>\<open>src/nesting_app.py\<close> (class \<^verbatim>\<open>NestingAlgorithm\<close>) works on shapely
  polygons. A polygon is modelled by the vertex sequence of its exterior ring, without the
  repeated closing vertex. Coordinates are Python floats in the source; here they are exact
  reals, so rounding is not modelled.

  The affine maps \<^verbatim>\<open>affinity.translate\<close>, \<^verbatim>\<open>affinity.rotate\<close> and \<^verbatim>\<open>affinity.scale\<close> act
  on every vertex; \<^verbatim>\<open>bounds\<close> is the coordinate-wise minimum and maximum; \<^verbatim>\<open>area\<close> is the
  absolute shoelace sum. Two operations of the library are not computed from the vertices
  here but taken as parameters of the model, collected in a \<open>kernel\<close>: the centroid that
  \<^verbatim>\<open>origin="centroid"\<close> stands for, and the exact test \<^verbatim>\<open>a.intersects(b)\<close>.
\<close>

type_synonym point = "real \<times> real"
type_synonym poly = "point list"
type_synonym bbox = "real \<times> real \<times> real \<times> real"

record kernel =
  centroid :: "poly \<Rightarrow> point"
  intersects :: "poly \<Rightarrow> poly \<Rightarrow> bool"

text \<open>\<^verbatim>\<open>int(x)\<close> on a float truncates towards zero; \<^verbatim>\<open>range(a, b)\<close> is empty when
  \<open>b \<le> a\<close>.\<close>

definition py_int :: "real \<Rightarrow> int" where
  "py_int x = (if 0 \<le> x then \<lfloor>x\<rfloor> else \<lceil>x\<rceil>)"

definition py_range :: "int \<Rightarrow> int \<Rightarrow> int list" where
  "py_range a b = [a..b - 1]"

definition translate :: "poly \<Rightarrow> real \<Rightarrow> real \<Rightarrow> poly" where
  "translate p xoff yoff = map (\<lambda>(x, y). (x + xoff, y + yoff)) p"

text \<open>The library rounds the cosine and sine of the four angles used to exactly
  \<open>0\<close>, \<open>1\<close> and \<open>-1\<close>.\<close>

definition cos_deg :: "nat \<Rightarrow> real" where
  "cos_deg a = (if a = 0 then 1 else if a = 180 then - 1 else 0)"

definition sin_deg :: "nat \<Rightarrow> real" where
  "sin_deg a = (if a = 90 then 1 else if a = 270 then - 1 else 0)"

definition rotate :: "kernel \<Rightarrow> poly \<Rightarrow> nat \<Rightarrow> poly" where
  "rotate ker p angle =
     (let (x0, y0) = centroid ker p; c = cos_deg angle; s = sin_deg angle;
          xoff = x0 - x0 * c + y0 * s; yoff = y0 - x0 * s - y0 * c
      in map (\<lambda>(x, y). (c * x - s * y + xoff, s * x + c * y + yoff)) p)"

definition scale :: "kernel \<Rightarrow> poly \<Rightarrow> real \<Rightarrow> poly" where
  "scale ker p xfact =
     (let (x0, y0) = centroid ker p; xoff = x0 - x0 * xfact
      in map (\<lambda>(x, y). (xfact * x + xoff, y)) p)"

text \<open>The bounds of an empty polygon are four NaNs in the library: \<open>None\<close> here. Every
  comparison with a NaN is false, and \<^verbatim>\<open>math.ceil\<close> of a NaN raises \<^verbatim>\<open>ValueError\<close>.\<close>

fun bounds :: "poly \<Rightarrow> bbox option" where
  "bounds [] = None"
| "bounds ((x, y) # ps) =
     Some (fold (\<lambda>q m. min (fst q) m) ps x, fold (\<lambda>q m. min (snd q) m) ps y,
           fold (\<lambda>q m. max (fst q) m) ps x, fold (\<lambda>q m. max (snd q) m) ps y)"

definition cross :: "point \<Rightarrow> point \<Rightarrow> real" where
  "cross a b = fst a * snd b - fst b * snd a"

fun path_sum :: "poly \<Rightarrow> real" where
  "path_sum (a # b # ps) = cross a b + path_sum (b # ps)"
| "path_sum _ = 0"

definition shoelace :: "poly \<Rightarrow> real" where
  "shoelace p = (case p of [] \<Rightarrow> 0 | a # _ \<Rightarrow> path_sum (p @ [a]))"

definition area :: "poly \<Rightarrow> real" where
  "area p = \<bar>shoelace p\<bar> / 2"

section \<open>Sheet state and conflict test\<close>

text \<open>The loops over \<^verbatim>\<open>enumerate(placed_bounds)\<close> with \<^verbatim>\<open>placed_polys[i]\<close>: a candidate is
  in conflict with an accepted placement when the four box comparisons all fail and the
  exact test holds. With NaN bounds all four comparisons are false.\<close>

definition box_apart :: "bbox option \<Rightarrow> bbox \<Rightarrow> bool" where
  "box_apart cbo pb = (case cbo of None \<Rightarrow> False
     | Some (c0, c1, c2, c3) \<Rightarrow> (case pb of (p0, p1, p2, p3) \<Rightarrow>
         c2 \<le> p0 \<or> p2 \<le> c0 \<or> c3 \<le> p1 \<or> p3 \<le> c1))"

definition overlap :: "kernel \<Rightarrow> bbox list \<Rightarrow> poly list \<Rightarrow> poly \<Rightarrow> bool" where
  "overlap ker pbs pps cp =
     list_ex (\<lambda>(pb, pp). \<not> box_apart (bounds cp) pb \<and> intersects ker cp pp) (zip pbs pps)"

section \<open>Gravity compaction\<close>

definition ymin_ok :: "poly \<Rightarrow> bool" where
  "ymin_ok t = (case bounds t of None \<Rightarrow> False | Some (b0, b1, b2, b3) \<Rightarrow> 0 \<le> b1)"

definition xmin_ok :: "poly \<Rightarrow> bool" where
  "xmin_ok t = (case bounds t of None \<Rightarrow> False | Some (b0, b1, b2, b3) \<Rightarrow> 0 \<le> b0)"

definition shift_down :: "kernel \<Rightarrow> bbox list \<Rightarrow> poly list \<Rightarrow> poly \<Rightarrow> poly option" where
  "shift_down ker pbs pps cp =
     (let t = translate cp 0 (- (1 / 2))
      in if ymin_ok t \<and> \<not> overlap ker pbs pps t then Some t else None)"

definition shift_left :: "kernel \<Rightarrow> bbox list \<Rightarrow> poly list \<Rightarrow> poly \<Rightarrow> poly option" where
  "shift_left ker pbs pps cp =
     (let t = translate cp (- (1 / 2)) 0
      in if xmin_ok t \<and> \<not> overlap ker pbs pps t then Some t else None)"

definition gravity_pass :: "kernel \<Rightarrow> bbox list \<Rightarrow> poly list \<Rightarrow> poly \<Rightarrow> poly \<times> bool" where
  "gravity_pass ker pbs pps cp =
     (let (cp1, m1) = (case shift_down ker pbs pps cp of Some t \<Rightarrow> (t, True) | None \<Rightarrow> (cp, False));
          (cp2, m2) = (case shift_left ker pbs pps cp1 of Some t \<Rightarrow> (t, True) | None \<Rightarrow> (cp1, m1))
      in (cp2, m2))"

definition corner_measure :: "poly \<Rightarrow> nat" where
  "corner_measure p = (case bounds p of None \<Rightarrow> 0
     | Some (b0, b1, b2, b3) \<Rightarrow> nat \<lfloor>2 * b0\<rfloor> + nat \<lfloor>2 * b1\<rfloor>)"

subsection \<open>Translation shifts the bounds\<close>

lemma fold_min_fst_translate:
  "fold (\<lambda>q m. min (fst q) m) (translate ps dx dy) (x + dx) =
     fold (\<lambda>q m. min (fst q) m) ps x + dx"
  by (induction ps arbitrary: x) (auto simp: translate_def min_def)

lemma fold_min_snd_translate:
  "fold (\<lambda>q m. min (snd q) m) (translate ps dx dy) (y + dy) =
     fold (\<lambda>q m. min (snd q) m) ps y + dy"
  by (induction ps arbitrary: y) (auto simp: translate_def min_def)

lemma fold_max_fst_translate:
  "fold (\<lambda>q m. max (fst q) m) (translate ps dx dy) (x + dx) =
     fold (\<lambda>q m. max (fst q) m) ps x + dx"
  by (induction ps arbitrary: x) (auto simp: translate_def max_def)

lemma fold_max_snd_translate:
  "fold (\<lambda>q m. max (snd q) m) (translate ps dx dy) (y + dy) =
     fold (\<lambda>q m. max (snd q) m) ps y + dy"
  by (induction ps arbitrary: y) (auto simp: translate_def max_def)

lemma translate_Cons: "translate ((x, y) # ps) dx dy = (x + dx, y + dy) # translate ps dx dy"
  by (simp add: translate_def)

lemma translate_Nil: "translate [] dx dy = []"
  by (simp add: translate_def)

lemma bounds_translate:
  "bounds (translate p dx dy) =
     map_option (\<lambda>(b0, b1, b2, b3). (b0 + dx, b1 + dy, b2 + dx, b3 + dy)) (bounds p)"
proof (cases p)
  case Nil
  then show ?thesis by (simp add: translate_Nil)
next
  case (Cons a ps)
  obtain x y where a: "a = (x, y)" by (cases a)
  show ?thesis
    unfolding Cons a translate_Cons
    by (simp add: fold_min_fst_translate fold_min_snd_translate
        fold_max_fst_translate fold_max_snd_translate)
qed

lemma shift_down_measure:
  assumes "shift_down ker pbs pps cp = Some t"
  shows "corner_measure t < corner_measure cp"
proof -
  from assms have t: "t = translate cp 0 (- (1 / 2))" and ok: "ymin_ok t"
    by (auto simp: shift_down_def Let_def split: if_splits)
  from ok obtain b0 b1 b2 b3 where bt: "bounds t = Some (b0, b1, b2, b3)" and b1: "0 \<le> b1"
    by (auto simp: ymin_ok_def split: option.splits)
  from bt t obtain c0 c1 c2 c3 where bc: "bounds cp = Some (c0, c1, c2, c3)"
    and e: "b0 = c0" "b1 = c1 - 1 / 2"
    by (auto simp: bounds_translate)
  have "\<lfloor>2 * b1\<rfloor> = \<lfloor>2 * c1\<rfloor> - 1" using e by (simp add: algebra_simps) linarith
  moreover have "0 \<le> \<lfloor>2 * b1\<rfloor>" using b1 by simp
  ultimately show ?thesis using bt bc e by (simp add: corner_measure_def)
qed

lemma shift_left_measure:
  assumes "shift_left ker pbs pps cp = Some t"
  shows "corner_measure t < corner_measure cp"
proof -
  from assms have t: "t = translate cp (- (1 / 2)) 0" and ok: "xmin_ok t"
    by (auto simp: shift_left_def Let_def split: if_splits)
  from ok obtain b0 b1 b2 b3 where bt: "bounds t = Some (b0, b1, b2, b3)" and b0: "0 \<le> b0"
    by (auto simp: xmin_ok_def split: option.splits)
  from bt t obtain c0 c1 c2 c3 where bc: "bounds cp = Some (c0, c1, c2, c3)"
    and e: "b1 = c1" "b0 = c0 - 1 / 2"
    by (auto simp: bounds_translate)
  have "\<lfloor>2 * b0\<rfloor> = \<lfloor>2 * c0\<rfloor> - 1" using e by (simp add: algebra_simps) linarith
  moreover have "0 \<le> \<lfloor>2 * b0\<rfloor>" using b0 by simp
  ultimately show ?thesis using bt bc e by (simp add: corner_measure_def)
qed

lemma gravity_pass_measure:
  assumes "gravity_pass ker pbs pps cp = (cp', True)"
  shows "corner_measure cp' < corner_measure cp"
  using assms shift_down_measure[of ker pbs pps cp]
  by (auto simp: gravity_pass_def split: option.splits
      dest!: shift_left_measure dest: less_trans)

text \<open>The loop \<^verbatim>\<open>while moved\<close>: one pass tries the down-shift, then the left-shift of the
  possibly shifted candidate, and the loop repeats while either succeeded.\<close>

function gravity :: "kernel \<Rightarrow> bbox list \<Rightarrow> poly list \<Rightarrow> poly \<Rightarrow> poly" where
  "gravity ker pbs pps cp =
     (case gravity_pass ker pbs pps cp of
        (cp', moved) \<Rightarrow> if moved then gravity ker pbs pps cp' else cp')"
  by pat_completeness auto
termination
  by (relation "measure (\<lambda>(ker, pbs, pps, cp). corner_measure cp)")
     (auto simp: gravity_pass_measure)

section \<open>Placement search\<close>

text \<open>An input panel and an entry of \<^verbatim>\<open>placed_items\<close> are both dictionaries with the
  keys \<^verbatim>\<open>"style"\<close>, \<^verbatim>\<open>"id"\<close> and \<^verbatim>\<open>"poly"\<close>.\<close>

record item =
  style :: string
  item_id :: string
  poly :: poly

datatype error = ValueError

text \<open>\<^verbatim>\<open>best_score\<close> starts as \<^verbatim>\<open>float("inf")\<close> (\<open>None\<close> here) and \<^verbatim>\<open>best_placement\<close> as
  \<^verbatim>\<open>None\<close>; a placement is the dictionary of the polygon and its bounds.\<close>

type_synonym best = "real option \<times> (poly \<times> bbox) option"

definition exceeds :: "real \<Rightarrow> real option \<Rightarrow> bool" where
  "exceeds x best_score = (case best_score of None \<Rightarrow> False | Some b \<Rightarrow> b < x)"

definition improves :: "real \<Rightarrow> real option \<Rightarrow> bool" where
  "improves sc best_score = (case best_score of None \<Rightarrow> True | Some b \<Rightarrow> sc < b)"

definition score :: "bbox \<Rightarrow> real" where
  "score b = (case b of (b0, b1, b2, b3) \<Rightarrow> b2 + b1 * (1 / 1000))"

definition endswith :: "string \<Rightarrow> string \<Rightarrow> bool" where
  "endswith s suf = (length suf \<le> length s \<and> drop (length s - length suf) s = suf)"

definition start_y_of :: "real \<Rightarrow> string \<Rightarrow> int" where
  "start_y_of fabric_width st =
     (if endswith st ''_A'' \<or> st = ''Style_A'' then 0 else py_int (fabric_width / 2))"

definition y_candidates :: "real \<Rightarrow> real \<Rightarrow> int \<Rightarrow> real list" where
  "y_candidates fabric_width h start_y =
     (if 0 < start_y then
        map (\<lambda>yy. of_int yy * 3)
          (py_range (py_int (of_int start_y / 3)) (py_int ((fabric_width - h) / 3) + 1))
        @ map (\<lambda>yy. of_int yy * 3) (py_range 0 (py_int (of_int start_y / 3)))
      else map (\<lambda>yy. of_int yy * 3) (py_range 0 (py_int ((fabric_width - h) / 3) + 1)))"

text \<open>\<^verbatim>\<open>for y in yc\<close>: the first position free of conflicts ends the scan of this
  orientation (\<open>Some\<close> is \<^verbatim>\<open>found_variant\<close>). What the source does with it inside the loop
  (compaction, scoring) is \<open>gravity\<close> and \<open>update_best\<close> below.\<close>

fun scan_y :: "kernel \<Rightarrow> bbox list \<Rightarrow> poly list \<Rightarrow> poly \<Rightarrow> real \<Rightarrow> real list \<Rightarrow> poly option"
  where
  "scan_y ker pbs pps vpoly x [] = None"
| "scan_y ker pbs pps vpoly x (y # ys) =
     (let cp = translate vpoly x y
      in if \<not> overlap ker pbs pps cp then Some cp else scan_y ker pbs pps vpoly x ys)"

text \<open>\<^verbatim>\<open>for xi in range(x_range + 1)\<close>, with the break at \<^verbatim>\<open>x > best_score\<close>.\<close>

fun scan_x ::
  "kernel \<Rightarrow> bbox list \<Rightarrow> poly list \<Rightarrow> poly \<Rightarrow> real list \<Rightarrow> real option \<Rightarrow> int list
     \<Rightarrow> poly option" where
  "scan_x ker pbs pps vpoly yc best_score [] = None"
| "scan_x ker pbs pps vpoly yc best_score (xi # xis) =
     (let x = of_int xi * 3
      in if exceeds x best_score then None
         else (case scan_y ker pbs pps vpoly x yc of
                 Some cp \<Rightarrow> Some cp
               | None \<Rightarrow> scan_x ker pbs pps vpoly yc best_score xis))"

definition variants :: "(nat \<times> int) list" where
  "variants = concat (map (\<lambda>a. map (\<lambda>m. (a, m)) [1, - 1]) [0, 90, 180, 270])"

definition orient :: "kernel \<Rightarrow> poly \<Rightarrow> nat \<times> int \<Rightarrow> poly" where
  "orient ker base_poly v =
     (case v of (angle, mirror) \<Rightarrow>
        let vpoly = rotate ker base_poly angle
        in if mirror = - 1 then scale ker vpoly (- 1) else vpoly)"

text \<open>The body of \<^verbatim>\<open>for angle, mirror in variants\<close> after the cancellation poll, up to the
  end of the compaction: the compacted candidate of the orientation, if the scan finds a
  free position. An orientation that does not fit the sheet is skipped.\<close>

definition variant_candidate ::
  "kernel \<Rightarrow> real \<Rightarrow> real \<Rightarrow> bbox list \<Rightarrow> poly list \<Rightarrow> int \<Rightarrow> poly \<Rightarrow> real option \<Rightarrow> nat \<times> int
     \<Rightarrow> error + poly option" where
  "variant_candidate ker fabric_width max_length pbs pps start_y base_poly best_score v =
     (let vpoly = orient ker base_poly v
      in case bounds vpoly of
           None \<Rightarrow> Inl ValueError
         | Some (mnx, mny, mxx, mxy) \<Rightarrow>
             (let vpoly = translate vpoly (- mnx) (- mny); w = mxx - mnx; h = mxy - mny
              in if max_length < w \<or> fabric_width < h then Inr None
                 else (let x_range = \<lceil>(max_length - w) / 3\<rceil>
                       in (case scan_x ker pbs pps vpoly (y_candidates fabric_width h start_y)
                                  best_score (py_range 0 (x_range + 1)) of
                             None \<Rightarrow> Inr None
                           | Some cp \<Rightarrow> Inr (Some (gravity ker pbs pps cp))))))"

text \<open>Scoring and the update of the best placement. A NaN score improves on nothing.\<close>

definition update_best :: "best \<Rightarrow> poly \<Rightarrow> best" where
  "update_best best cp =
     (case bounds cp of
        None \<Rightarrow> best
      | Some b \<Rightarrow> if improves (score b) (fst best) then (Some (score b), Some (cp, b))
                  else best)"

definition try_variant ::
  "kernel \<Rightarrow> real \<Rightarrow> real \<Rightarrow> bbox list \<Rightarrow> poly list \<Rightarrow> int \<Rightarrow> poly \<Rightarrow> best \<Rightarrow> nat \<times> int
     \<Rightarrow> error + best" where
  "try_variant ker fabric_width max_length pbs pps start_y base_poly best v =
     (case variant_candidate ker fabric_width max_length pbs pps start_y base_poly (fst best) v of
        Inl e \<Rightarrow> Inl e
      | Inr None \<Rightarrow> Inr best
      | Inr (Some cp) \<Rightarrow> Inr (update_best best cp))"

section \<open>Run controller\<close>

text \<open>\<^verbatim>\<open>cancel_flag\<close> is an optional zero-argument predicate of the caller. Its answers are
  given by the number of the call: \<open>f n\<close> is what the \<open>n\<close>-th call returns. The counter
  \<open>polls\<close> is part of the state. The progress callback receives a copy of the placed list
  and cannot change the lists; it is left out.\<close>

definition poll :: "(nat \<Rightarrow> bool) option \<Rightarrow> nat \<Rightarrow> bool \<times> nat" where
  "poll cancel_flag n = (case cancel_flag of None \<Rightarrow> (False, n) | Some f \<Rightarrow> (f n, Suc n))"

fun variants_loop ::
  "kernel \<Rightarrow> real \<Rightarrow> real \<Rightarrow> (nat \<Rightarrow> bool) option \<Rightarrow> bbox list \<Rightarrow> poly list \<Rightarrow> int \<Rightarrow> poly
     \<Rightarrow> nat \<Rightarrow> best \<Rightarrow> (nat \<times> int) list \<Rightarrow> error + (best \<times> nat)" where
  "variants_loop ker fw ml cancel_flag pbs pps start_y base_poly n best [] = Inr (best, n)"
| "variants_loop ker fw ml cancel_flag pbs pps start_y base_poly n best (v # vs) =
     (case poll cancel_flag n of
        (True, n') \<Rightarrow> Inr (best, n')
      | (False, n') \<Rightarrow>
          (case try_variant ker fw ml pbs pps start_y base_poly best v of
             Inl e \<Rightarrow> Inl e
           | Inr best' \<Rightarrow>
               variants_loop ker fw ml cancel_flag pbs pps start_y base_poly n' best' vs))"

record nest =
  placed_items :: "item list"
  unplaced_items :: "item list"
  placed_polys :: "poly list"
  placed_bounds :: "bbox list"
  polls :: nat

text \<open>The body of \<^verbatim>\<open>for idx, item in enumerate(self.patterns)\<close> after the poll: the search
  over the orientations, then the commit of the best placement or the report as unplaced.\<close>

definition place_item ::
  "kernel \<Rightarrow> real \<Rightarrow> real \<Rightarrow> (nat \<Rightarrow> bool) option \<Rightarrow> nest \<Rightarrow> item \<Rightarrow> error + nest" where
  "place_item ker fw ml cancel_flag s it =
     (case variants_loop ker fw ml cancel_flag (placed_bounds s) (placed_polys s)
             (start_y_of fw (style it)) (poly it) (polls s) (None, None) variants of
        Inl e \<Rightarrow> Inl e
      | Inr ((best_score, best_placement), n) \<Rightarrow>
          (case best_placement of
             Some (cp, b) \<Rightarrow>
               Inr (s\<lparr>placed_items := placed_items s @ [\<lparr>style = style it, item_id = item_id it, poly = cp\<rparr>],
                      placed_polys := placed_polys s @ [cp],
                      placed_bounds := placed_bounds s @ [b],
                      polls := n\<rparr>)
           | None \<Rightarrow> Inr (s\<lparr>unplaced_items := unplaced_items s @ [it], polls := n\<rparr>)))"

fun run_loop ::
  "kernel \<Rightarrow> real \<Rightarrow> real \<Rightarrow> (nat \<Rightarrow> bool) option \<Rightarrow> nest \<Rightarrow> item list \<Rightarrow> error + nest" where
  "run_loop ker fw ml cancel_flag s [] = Inr s"
| "run_loop ker fw ml cancel_flag s (it # its) =
     (case poll cancel_flag (polls s) of
        (True, n') \<Rightarrow> Inr (s\<lparr>polls := n'\<rparr>)
      | (False, n') \<Rightarrow>
          (case place_item ker fw ml cancel_flag (s\<lparr>polls := n'\<rparr>) it of
             Inl e \<Rightarrow> Inl e
           | Inr s' \<Rightarrow> run_loop ker fw ml cancel_flag s' its))"

text \<open>The sort key \<^verbatim>\<open>(area, max(width, height))\<close> with \<^verbatim>\<open>reverse=True\<close>: a stable sort,
  descending. The extent of an empty polygon is a NaN in the source, whose place in the
  order is not modelled (it is \<open>0\<close> here).\<close>

definition extent :: "poly \<Rightarrow> real" where
  "extent p = (case bounds p of None \<Rightarrow> 0
     | Some (b0, b1, b2, b3) \<Rightarrow> max (b2 - b0) (b3 - b1))"

definition sort_patterns :: "item list \<Rightarrow> item list" where
  "sort_patterns patterns = sort_key (\<lambda>x. (- area (poly x), - extent (poly x))) patterns"

definition init_nest :: nest where
  "init_nest = \<lparr>placed_items = [], unplaced_items = [], placed_polys = [], placed_bounds = [],
     polls = 0\<rparr>"

definition run ::
  "kernel \<Rightarrow> item list \<Rightarrow> real \<Rightarrow> real \<Rightarrow> (nat \<Rightarrow> bool) option \<Rightarrow> error + (item list \<times> item list)"
  where
  "run ker patterns fabric_width max_length cancel_flag =
     (case run_loop ker fabric_width max_length cancel_flag init_nest (sort_patterns patterns) of
        Inl e \<Rightarrow> Inl e
      | Inr s \<Rightarrow> Inr (placed_items s, unplaced_items s))"

text \<open>For axis-parallel rectangles the library's operations are simple: the centroid is
  the centre of the box, and two rectangles intersect (share a point, boundary included)
  exactly when their closed boxes meet. \<open>box_kernel\<close> is the kernel on such inputs.\<close>

definition box_centre :: "poly \<Rightarrow> point" where
  "box_centre p = (case bounds p of None \<Rightarrow> (0, 0)
     | Some (b0, b1, b2, b3) \<Rightarrow> ((b0 + b2) / 2, (b1 + b3) / 2))"

definition box_intersects :: "poly \<Rightarrow> poly \<Rightarrow> bool" where
  "box_intersects p q = (case (bounds p, bounds q) of
       (Some (a0, a1, a2, a3), Some (b0, b1, b2, b3)) \<Rightarrow>
          a0 \<le> b2 \<and> b0 \<le> a2 \<and> a1 \<le> b3 \<and> b1 \<le> a3
     | _ \<Rightarrow> False)"

definition box_kernel :: kernel where
  "box_kernel = \<lparr>centroid = box_centre, intersects = box_intersects\<rparr>"

definition rect :: "real \<Rightarrow> real \<Rightarrow> poly" where
  "rect w h = [(0, 0), (w, 0), (w, h), (0, h)]"

text \<open>The same loop with a cap on the number of passes, to state how many passes
  suffice.\<close>

fun gravity_fuel :: "nat \<Rightarrow> kernel \<Rightarrow> bbox list \<Rightarrow> poly list \<Rightarrow> poly \<Rightarrow> poly option" where
  "gravity_fuel 0 ker pbs pps cp = None"
| "gravity_fuel (Suc k) ker pbs pps cp =
     (case gravity_pass ker pbs pps cp of
        (cp', moved) \<Rightarrow> if moved then gravity_fuel k ker pbs pps cp' else Some cp')"

section \<open>Evaluation on concrete inputs\<close>

lemmas eval_defs = box_kernel_def rect_def overlap_def box_apart_def box_intersects_def
  translate_def gravity.simps gravity_pass_def shift_down_def shift_left_def ymin_ok_def
  xmin_ok_def corner_measure_def update_best_def variant_candidate_def exceeds_def
  improves_def score_def endswith_def start_y_of_def y_candidates_def py_int_def py_range_def
  variants_def orient_def rotate_def scale_def cos_deg_def sin_deg_def try_variant_def
  poll_def place_item_def init_nest_def run_def sort_patterns_def extent_def area_def
  shoelace_def cross_def box_centre_def upto.simps

section \<open>Gravity compaction: termination and fixed point\<close>

lemma gravity_unfold_moved:
  "gravity_pass ker pbs pps cp = (cp', True) \<Longrightarrow> gravity ker pbs pps cp = gravity ker pbs pps cp'"
  by (subst gravity.simps) simp

lemma gravity_unfold_still:
  "gravity_pass ker pbs pps cp = (cp', False) \<Longrightarrow> gravity ker pbs pps cp = cp'"
  by (subst gravity.simps) simp

lemma gravity_pass_still:
  "gravity_pass ker pbs pps cp = (cp', False) \<Longrightarrow> cp' = cp"
  by (auto simp: gravity_pass_def split: option.splits)

lemma gravity_pass_none:
  "gravity_pass ker pbs pps cp = (cp', False) \<Longrightarrow>
     shift_down ker pbs pps cp = None \<and> shift_left ker pbs pps cp = None"
  by (auto simp: gravity_pass_def split: option.splits)

lemma gravity_fuel_enough:
  "corner_measure cp < k \<Longrightarrow> gravity_fuel k ker pbs pps cp = Some (gravity ker pbs pps cp)"
proof (induction k arbitrary: cp)
  case 0
  then show ?case by simp
next
  case (Suc k)
  obtain cp' moved where gp: "gravity_pass ker pbs pps cp = (cp', moved)"
    by (cases "gravity_pass ker pbs pps cp")
  show ?case
  proof (cases moved)
    case True
    with gp have "corner_measure cp' < corner_measure cp"
      using gravity_pass_measure[of ker pbs pps cp cp'] by simp
    with Suc.prems have "corner_measure cp' < k" by simp
    from Suc.IH[OF this] gp True show ?thesis
      by (simp add: gravity_unfold_moved)
  next
    case False
    with gp show ?thesis by (simp add: gravity_unfold_still)
  qed
qed

lemma gravity_fixed:
  "gravity_pass ker pbs pps (gravity ker pbs pps cp) = (gravity ker pbs pps cp, False)"
proof (induction "corner_measure cp" arbitrary: cp rule: less_induct)
  case less
  obtain cp' moved where gp: "gravity_pass ker pbs pps cp = (cp', moved)"
    by (cases "gravity_pass ker pbs pps cp")
  show ?case
  proof (cases moved)
    case True
    with gp have "corner_measure cp' < corner_measure cp"
      using gravity_pass_measure[of ker pbs pps cp cp'] by simp
    from less[OF this] gp True show ?thesis
      by (simp add: gravity_unfold_moved)
  next
    case False
    with gp gravity_pass_still[of ker pbs pps cp cp'] show ?thesis
      by (simp add: gravity_unfold_still)
  qed
qed

text \<open>
  Claim C9. The compaction loop terminates for every candidate: with the corner measure
  \<open>\<lfloor>2 xmin\<rfloor> + \<lfloor>2 ymin\<rfloor>\<close> of the candidate's bounds, that many passes plus one reach
  the result, and at the result neither the down-shift nor the left-shift succeeds. (In
  exact arithmetic: a float so large that subtracting 0.5 leaves it unchanged is outside the
  model.)
\<close>

theorem gravity_terminates_at_fixed_point:
  "gravity_fuel (Suc (corner_measure cp)) ker pbs pps cp = Some (gravity ker pbs pps cp)
   \<and> shift_down ker pbs pps (gravity ker pbs pps cp) = None
   \<and> shift_left ker pbs pps (gravity ker pbs pps cp) = None"
proof -
  have "gravity_pass ker pbs pps (gravity ker pbs pps cp) = (gravity ker pbs pps cp, False)"
    by (rule gravity_fixed)
  then have "shift_down ker pbs pps (gravity ker pbs pps cp) = None
    \<and> shift_left ker pbs pps (gravity ker pbs pps cp) = None"
    by (rule gravity_pass_none)
  then show ?thesis using gravity_fuel_enough[of cp "Suc (corner_measure cp)" ker pbs pps]
    by simp
qed

theorem gravity_terminates_witness:
  "gravity_fuel 15 box_kernel [(0, 0, 5, 5)] [rect 5 5] (translate (rect 5 5) 7 0)
     = Some (translate (rect 5 5) 5 0)
   \<and> shift_down box_kernel [(0, 0, 5, 5)] [rect 5 5] (translate (rect 5 5) 5 0) = None
   \<and> shift_left box_kernel [(0, 0, 5, 5)] [rect 5 5] (translate (rect 5 5) 5 0) = None"
proof -
  have g: "gravity box_kernel [(0, 0, 5, 5)] [rect 5 5] (translate (rect 5 5) 7 0)
      = translate (rect 5 5) 5 0"
    by (simp add: eval_defs)
  have m: "Suc (corner_measure (translate (rect 5 5) 7 0)) = 15"
    by (simp add: eval_defs)
  show ?thesis
    using gravity_terminates_at_fixed_point
      [of "translate (rect 5 5) 7 0" box_kernel "[(0, 0, 5, 5)]" "[rect 5 5]"]
    unfolding g m .
qed

section \<open>Boundary of the sheet\<close>

text \<open>
  Claim C1. Two 5 x 5 squares of lane A on a sheet of width 5 and maximal length 9. The
  scan of the second square tries \<open>x = 6\<close>, since \<^verbatim>\<open>x_range\<close> is the ceiling of \<open>4 / 3\<close>; the
  position is free, compaction stops at the first square, and the second square is placed
  with \<open>xmax = 10\<close>, beyond the maximal length.
\<close>

theorem run_exceeds_max_length:
  "run box_kernel
     [\<lparr>style = ''Style_A'', item_id = ''p1'', poly = rect 5 5\<rparr>,
      \<lparr>style = ''Style_A'', item_id = ''p2'', poly = rect 5 5\<rparr>] 5 9 None
   = Inr ([\<lparr>style = ''Style_A'', item_id = ''p1'', poly = [(0, 0), (5, 0), (5, 5), (0, 5)]\<rparr>,
           \<lparr>style = ''Style_A'', item_id = ''p2'', poly = [(5, 0), (10, 0), (10, 5), (5, 5)]\<rparr>],
          [])
   \<and> bounds [(5, 0), (10, 0), (10, 5), (5, 5)] = Some (5, 0, 10, 5)"
  by (simp add: eval_defs)

text \<open>The y scan has the same defect in its wrapped part, which is not bounded by
  \<open>width - h\<close>: behind a bar 100 x 5.8 of lane A, a 10 x 15 panel of another style on a
  sheet of width 20 is tried at \<open>y = 0, 3, 6\<close> and placed at \<open>(0,6)-(10,21)\<close>, above the
  sheet.\<close>

lemma wrapped_scan_exceeds_width:
  "y_candidates 20 15 (start_y_of 20 ''Style_B'') = [0, 3, 6]
   \<and> run box_kernel
     [\<lparr>style = ''Style_A'', item_id = ''bar'', poly = rect 100 (29 / 5)\<rparr>,
      \<lparr>style = ''Style_B'', item_id = ''tall'', poly = rect 10 15\<rparr>] 20 100 None
   = Inr ([\<lparr>style = ''Style_A'', item_id = ''bar'',
              poly = [(0, 0), (100, 0), (100, 29 / 5), (0, 29 / 5)]\<rparr>,
           \<lparr>style = ''Style_B'', item_id = ''tall'',
              poly = [(0, 6), (10, 6), (10, 21), (0, 21)]\<rparr>], [])"
  by (simp add: eval_defs)

section \<open>What the search returns\<close>

lemma scan_y_Some:
  "scan_y ker pbs pps vpoly x ys = Some cp \<Longrightarrow>
     \<exists>y\<in>set ys. cp = translate vpoly x y \<and> \<not> overlap ker pbs pps cp"
  by (induction ys) (auto simp: Let_def split: if_splits)

lemma scan_x_Some:
  "scan_x ker pbs pps vpoly yc bs xis = Some cp \<Longrightarrow>
     \<exists>xi\<in>set xis. \<exists>y\<in>set yc. cp = translate vpoly (of_int xi * 3) y
        \<and> \<not> overlap ker pbs pps cp \<and> \<not> exceeds (of_int xi * 3) bs"
proof (induction xis)
  case Nil
  then show ?case by simp
next
  case (Cons xi xis)
  show ?case
  proof (cases "scan_y ker pbs pps vpoly (of_int xi * 3) yc")
    case None
    with Cons show ?thesis by (auto simp: Let_def split: if_splits)
  next
    case (Some c)
    with Cons.prems have "c = cp" and "\<not> exceeds (of_int xi * 3) bs"
      by (auto simp: Let_def split: if_splits)
    with scan_y_Some[OF Some] show ?thesis by auto
  qed
qed

lemma shift_down_Some:
  "shift_down ker pbs pps cp = Some t \<Longrightarrow>
     t = translate cp 0 (- (1 / 2)) \<and> \<not> overlap ker pbs pps t \<and> ymin_ok t"
  by (auto simp: shift_down_def Let_def split: if_splits)

lemma shift_left_Some:
  "shift_left ker pbs pps cp = Some t \<Longrightarrow>
     t = translate cp (- (1 / 2)) 0 \<and> \<not> overlap ker pbs pps t \<and> xmin_ok t"
  by (auto simp: shift_left_def Let_def split: if_splits)

lemma translate_translate:
  "translate (translate p a b) c d = translate p (a + c) (b + d)"
  by (induction p) (auto simp: translate_def)

lemma translate_zero: "translate p 0 0 = p"
  by (induction p) (auto simp: translate_def)

lemma gravity_pass_props:
  assumes "gravity_pass ker pbs pps cp = (cp', m)" and "\<not> overlap ker pbs pps cp"
  shows "\<not> overlap ker pbs pps cp' \<and> (\<exists>dx dy. cp' = translate cp dx dy)"
proof -
  have z: "cp = translate cp 0 0" by (simp add: translate_zero)
  show ?thesis
  proof (cases "shift_down ker pbs pps cp")
    case None
    show ?thesis
    proof (cases "shift_left ker pbs pps cp")
      case N2: None
      with None assms have "cp' = cp" by (simp add: gravity_pass_def)
      with assms(2) z show ?thesis by metis
    next
      case (Some t)
      with None assms have "cp' = t" by (simp add: gravity_pass_def)
      with shift_left_Some[OF Some] show ?thesis by auto
    qed
  next
    case (Some t)
    note d = shift_down_Some[OF Some]
    show ?thesis
    proof (cases "shift_left ker pbs pps t")
      case None
      with Some assms have "cp' = t" by (simp add: gravity_pass_def)
      with d show ?thesis by auto
    next
      case S2: (Some u)
      with Some assms have "cp' = u" by (simp add: gravity_pass_def)
      with d shift_left_Some[OF S2] show ?thesis
        by (auto simp: translate_translate)
    qed
  qed
qed

lemma gravity_props:
  "\<not> overlap ker pbs pps cp \<Longrightarrow>
     \<not> overlap ker pbs pps (gravity ker pbs pps cp)
     \<and> (\<exists>dx dy. gravity ker pbs pps cp = translate cp dx dy)"
proof (induction "corner_measure cp" arbitrary: cp rule: less_induct)
  case less
  obtain cp' moved where gp: "gravity_pass ker pbs pps cp = (cp', moved)"
    by (cases "gravity_pass ker pbs pps cp")
  note p = gravity_pass_props[OF gp less.prems]
  show ?case
  proof (cases moved)
    case True
    with gp have m: "corner_measure cp' < corner_measure cp"
      using gravity_pass_measure[of ker pbs pps cp cp'] by simp
    have g: "gravity ker pbs pps cp = gravity ker pbs pps cp'"
      using gp True by (simp add: gravity_unfold_moved)
    from p obtain dx dy where c: "cp' = translate cp dx dy" by blast
    from less.hyps[OF m] p obtain ex ey where
      "\<not> overlap ker pbs pps (gravity ker pbs pps cp')"
      "gravity ker pbs pps cp' = translate cp' ex ey" by blast
    with g c show ?thesis by (auto simp: translate_translate)
  next
    case False
    with gp have "gravity ker pbs pps cp = cp'" by (simp add: gravity_unfold_still)
    with p show ?thesis by auto
  qed
qed

section \<open>No conflict between accepted placements\<close>

text \<open>Two placements are in conflict when their boxes overlap and their polygons
  intersect; this is the test of the source, between a candidate and an accepted polygon.\<close>

definition conflict :: "kernel \<Rightarrow> poly \<Rightarrow> poly \<Rightarrow> bool" where
  "conflict ker cp pp =
     (case bounds pp of None \<Rightarrow> intersects ker cp pp
      | Some pb \<Rightarrow> \<not> box_apart (bounds cp) pb \<and> intersects ker cp pp)"

definition best_ok :: "kernel \<Rightarrow> bbox list \<Rightarrow> poly list \<Rightarrow> poly \<Rightarrow> best \<Rightarrow> bool" where
  "best_ok ker pbs pps base best =
     (case best of
        (bs, None) \<Rightarrow> bs = None
      | (bs, Some (cp, b)) \<Rightarrow>
          bounds cp = Some b \<and> bs = Some (score b) \<and> \<not> overlap ker pbs pps cp
          \<and> (\<exists>v\<in>set variants. \<exists>dx dy. cp = translate (orient ker base v) dx dy))"

definition conflict_free :: "kernel \<Rightarrow> poly list \<Rightarrow> bool" where
  "conflict_free ker ps = (\<forall>j<length ps. \<forall>i<j. \<not> conflict ker (ps ! j) (ps ! i))"

definition sheet_ok :: "kernel \<Rightarrow> nest \<Rightarrow> bool" where
  "sheet_ok ker s =
     (placed_polys s = map poly (placed_items s)
      \<and> map Some (placed_bounds s) = map bounds (placed_polys s)
      \<and> conflict_free ker (placed_polys s))"

lemma sheet_okD:
  assumes "sheet_ok ker s"
  shows "placed_polys s = map poly (placed_items s)"
    and "map Some (placed_bounds s) = map bounds (placed_polys s)"
    and "conflict_free ker (placed_polys s)"
  using assms unfolding sheet_ok_def by auto

lemma sheet_okI:
  "placed_polys s = map poly (placed_items s) \<Longrightarrow>
   map Some (placed_bounds s) = map bounds (placed_polys s) \<Longrightarrow>
   conflict_free ker (placed_polys s) \<Longrightarrow> sheet_ok ker s"
  unfolding sheet_ok_def by auto

lemma conflict_free_snoc:
  assumes "conflict_free ker ps" and "\<forall>pp\<in>set ps. \<not> conflict ker cp pp"
  shows "conflict_free ker (ps @ [cp])"
  unfolding conflict_free_def
proof (intro allI impI)
  fix j i assume j: "j < length (ps @ [cp])" and i: "i < j"
  show "\<not> conflict ker ((ps @ [cp]) ! j) ((ps @ [cp]) ! i)"
  proof (cases "j < length ps")
    case True
    with i assms(1) show ?thesis by (simp add: conflict_free_def nth_append)
  next
    case False
    with j have "j = length ps" by simp
    with i assms(2) show ?thesis by (simp add: nth_append)
  qed
qed

lemma bounds_None_iff: "bounds p = None \<longleftrightarrow> p = []"
  by (cases p) auto

lemma translate_eq_Nil: "translate p dx dy = [] \<longleftrightarrow> p = []"
  by (simp add: translate_def)

lemma variant_candidate_Some:
  assumes "variant_candidate ker fw ml pbs pps sy base bs v = Inr (Some cp)"
  shows "\<not> overlap ker pbs pps cp \<and> (\<exists>dx dy. cp = translate (orient ker base v) dx dy)
     \<and> bounds cp \<noteq> None"
proof -
  from assms obtain mnx mny mxx mxy where
    b: "bounds (orient ker base v) = Some (mnx, mny, mxx, mxy)"
    by (auto simp: variant_candidate_def Let_def split: option.splits)
  define vp where "vp = translate (orient ker base v) (- mnx) (- mny)"
  from assms b obtain cp0 yc xs where
    sc: "scan_x ker pbs pps vp yc bs xs = Some cp0" and g: "cp = gravity ker pbs pps cp0"
    by (auto simp: variant_candidate_def Let_def vp_def split: option.splits if_splits)
  from scan_x_Some[OF sc] obtain x y where
    c0: "cp0 = translate vp x y" and no: "\<not> overlap ker pbs pps cp0" by blast
  from gravity_props[OF no] g obtain dx dy where
    n1: "\<not> overlap ker pbs pps cp" and c1: "cp = translate cp0 dx dy" by auto
  have c2: "cp = translate (orient ker base v) (- mnx + x + dx) (- mny + y + dy)"
    unfolding c1 c0 vp_def by (simp add: translate_translate)
  from b have "orient ker base v \<noteq> []" by (auto simp: bounds_None_iff[symmetric])
  then have "cp \<noteq> []" unfolding c2 by (simp add: translate_eq_Nil)
  then have "bounds cp \<noteq> None" by (simp add: bounds_None_iff)
  with n1 c2 show ?thesis by blast
qed

lemma update_best_ok:
  assumes "best_ok ker pbs pps base best" and "\<not> overlap ker pbs pps cp"
    and "\<exists>dx dy. cp = translate (orient ker base v) dx dy" and "v \<in> set variants"
  shows "best_ok ker pbs pps base (update_best best cp)"
proof (cases "bounds cp")
  case None
  with assms(1) show ?thesis by (simp add: update_best_def)
next
  case (Some b)
  show ?thesis
  proof (cases "improves (score b) (fst best)")
    case True
    with Some have "update_best best cp = (Some (score b), Some (cp, b))"
      by (simp add: update_best_def)
    with Some assms(2-4) show ?thesis by (auto simp: best_ok_def)
  next
    case False
    with Some assms(1) show ?thesis by (simp add: update_best_def)
  qed
qed

lemma try_variant_ok:
  assumes "try_variant ker fw ml pbs pps sy base best v = Inr best'"
    and "best_ok ker pbs pps base best" and "v \<in> set variants"
  shows "best_ok ker pbs pps base best'"
proof (cases "variant_candidate ker fw ml pbs pps sy base (fst best) v")
  case (Inl e)
  with assms(1) show ?thesis by (simp add: try_variant_def)
next
  case (Inr r)
  show ?thesis
  proof (cases r)
    case None
    with Inr assms(1,2) show ?thesis by (simp add: try_variant_def)
  next
    case (Some cp)
    with Inr assms(1) have e: "best' = update_best best cp" by (simp add: try_variant_def)
    from Inr Some have "variant_candidate ker fw ml pbs pps sy base (fst best) v = Inr (Some cp)"
      by simp
    from variant_candidate_Some[OF this] update_best_ok[OF assms(2) _ _ assms(3), of cp]
    show ?thesis unfolding e by blast
  qed
qed

lemma variants_loop_ok:
  "variants_loop ker fw ml cf pbs pps sy base n best vs = Inr (best', n') \<Longrightarrow>
     best_ok ker pbs pps base best \<Longrightarrow> set vs \<subseteq> set variants \<Longrightarrow>
     best_ok ker pbs pps base best'"
proof (induction vs arbitrary: n best)
  case Nil
  then show ?case by simp
next
  case (Cons v vs)
  obtain c k where p: "poll cf n = (c, k)" by (cases "poll cf n")
  show ?case
  proof (cases c)
    case True
    with p Cons.prems show ?thesis by simp
  next
    case False
    with p Cons.prems(1) obtain b1 where
      t: "try_variant ker fw ml pbs pps sy base best v = Inr b1"
      and r: "variants_loop ker fw ml cf pbs pps sy base k b1 vs = Inr (best', n')"
      by (auto split: sum.splits)
    from try_variant_ok[OF t Cons.prems(2)] Cons.prems(3)
    have "best_ok ker pbs pps base b1" by simp
    from Cons.IH[OF r this] Cons.prems(3) show ?thesis by simp
  qed
qed

lemma overlap_conflict:
  "map Some pbs = map bounds pps \<Longrightarrow>
     overlap ker pbs pps cp \<longleftrightarrow> (\<exists>pp\<in>set pps. conflict ker cp pp)"
proof (induction pps arbitrary: pbs)
  case Nil
  then show ?case by (simp add: overlap_def)
next
  case (Cons pp pps)
  from Cons.prems obtain pb pbs' where e: "pbs = pb # pbs'" and b: "bounds pp = Some pb"
    and r: "map Some pbs' = map bounds pps"
    by (cases pbs) auto
  from Cons.IH[OF r] have
    "overlap ker pbs' pps cp \<longleftrightarrow> (\<exists>pp\<in>set pps. conflict ker cp pp)" .
  then show ?case unfolding e using b by (auto simp: overlap_def conflict_def)
qed

lemma place_item_ok:
  assumes "place_item ker fw ml cf s it = Inr s'" and "sheet_ok ker s"
  shows "sheet_ok ker s'"
proof -
  from assms(1) obtain bs bp n where
    v: "variants_loop ker fw ml cf (placed_bounds s) (placed_polys s) (start_y_of fw (style it))
          (poly it) (polls s) (None, None) variants = Inr ((bs, bp), n)"
    by (auto simp: place_item_def split: sum.splits)
  have "best_ok ker (placed_bounds s) (placed_polys s) (poly it) (None, None)"
    by (simp add: best_ok_def)
  from variants_loop_ok[OF v this] have ok: "best_ok ker (placed_bounds s) (placed_polys s) (poly it) (bs, bp)"
    by simp
  note d = sheet_okD[OF assms(2)]
  show ?thesis
  proof (cases bp)
    case None
    with v assms(1) have s': "s' = s\<lparr>unplaced_items := unplaced_items s @ [it], polls := n\<rparr>"
      by (simp add: place_item_def)
    show ?thesis unfolding s' using d by (intro sheet_okI) simp_all
  next
    case (Some cb)
    obtain cp b where cb: "cb = (cp, b)" by (cases cb)
    from v assms(1) Some cb have s': "s' = s\<lparr>placed_items := placed_items s @
          [\<lparr>style = style it, item_id = item_id it, poly = cp\<rparr>],
        placed_polys := placed_polys s @ [cp], placed_bounds := placed_bounds s @ [b], polls := n\<rparr>"
      by (simp add: place_item_def)
    from ok Some cb have b: "bounds cp = Some b"
      and no: "\<not> overlap ker (placed_bounds s) (placed_polys s) cp"
      by (auto simp: best_ok_def)
    from no overlap_conflict[OF d(2)] have nc: "\<forall>pp\<in>set (placed_polys s). \<not> conflict ker cp pp"
      by simp
    from conflict_free_snoc[OF d(3) nc] have cf: "conflict_free ker (placed_polys s @ [cp])" .
    show ?thesis unfolding s' using d(1,2) b cf by (intro sheet_okI) simp_all
  qed
qed

lemma sheet_ok_polls: "sheet_ok ker s \<Longrightarrow> sheet_ok ker (s\<lparr>polls := k\<rparr>)"
  unfolding sheet_ok_def by auto

lemma run_loop_ok:
  "run_loop ker fw ml cf s its = Inr s' \<Longrightarrow> sheet_ok ker s \<Longrightarrow> sheet_ok ker s'"
proof (induction its arbitrary: s)
  case Nil
  then show ?case by simp
next
  case (Cons it its)
  obtain c k where p: "poll cf (polls s) = (c, k)" by (cases "poll cf (polls s)")
  have ok: "sheet_ok ker (s\<lparr>polls := k\<rparr>)" using Cons.prems(2) by (rule sheet_ok_polls)
  show ?case
  proof (cases c)
    case True
    with p Cons.prems(1) ok show ?thesis by auto
  next
    case False
    with p Cons.prems(1) obtain s1 where
      t: "place_item ker fw ml cf (s\<lparr>polls := k\<rparr>) it = Inr s1"
      and r: "run_loop ker fw ml cf s1 its = Inr s'"
      by (auto split: sum.splits)
    from Cons.IH[OF r place_item_ok[OF t ok]] show ?thesis .
  qed
qed

lemma init_nest_ok: "sheet_ok ker init_nest"
  by (intro sheet_okI) (simp_all add: init_nest_def conflict_free_def)

text \<open>The accept test holds between every two entries of the placed list: the later one
  was tested against the earlier one when it was scanned and after each compaction shift.\<close>

lemma placed_pairs_not_in_conflict:
  assumes "run ker patterns fabric_width max_length cancel_flag = Inr (placed, unplaced)"
  shows "\<forall>j<length placed. \<forall>i<j. \<not> conflict ker (poly (placed ! j)) (poly (placed ! i))"
proof -
  from assms obtain s where
    r: "run_loop ker fabric_width max_length cancel_flag init_nest (sort_patterns patterns) = Inr s"
    and p: "placed = placed_items s"
    by (auto simp: run_def split: sum.splits)
  from sheet_okD[OF run_loop_ok[OF r init_nest_ok]]
  have "conflict_free ker (map poly (placed_items s))" by simp
  then show ?thesis unfolding p by (simp add: conflict_free_def)
qed

subsection \<open>From the accept test to the regions of the polygons\<close>

text \<open>The region of a polygon is a set of points of the plane, its boundary included. The
  library computes it; here it is any predicate \<open>inside p pt\<close> that the library's operations
  respect: the region of a polygon lies within its bounding box, and \<^verbatim>\<open>intersects\<close> holds of
  two polygons whenever their regions have a point in common. \<open>in_bounds\<close> is the closed box,
  \<open>strictly_in_bounds\<close> the open one.\<close>

definition in_bounds :: "bbox option \<Rightarrow> point \<Rightarrow> bool" where
  "in_bounds bo pt = (case bo of None \<Rightarrow> False
     | Some (b0, b1, b2, b3) \<Rightarrow> b0 \<le> fst pt \<and> fst pt \<le> b2 \<and> b1 \<le> snd pt \<and> snd pt \<le> b3)"

definition strictly_in_bounds :: "bbox option \<Rightarrow> point \<Rightarrow> bool" where
  "strictly_in_bounds bo pt = (case bo of None \<Rightarrow> False
     | Some (b0, b1, b2, b3) \<Rightarrow> b0 < fst pt \<and> fst pt < b2 \<and> b1 < snd pt \<and> snd pt < b3)"

text \<open>For axis-parallel rectangles the region is the closed box.\<close>

definition in_box :: "poly \<Rightarrow> point \<Rightarrow> bool" where
  "in_box p pt = in_bounds (bounds p) pt"

lemma apart_common_point:
  assumes "box_apart (bounds p) pb" and "bounds q = Some pb"
    and "in_bounds (bounds p) pt" and "in_bounds (bounds q) pt"
  shows "\<not> strictly_in_bounds (bounds p) pt \<and> \<not> strictly_in_bounds (bounds q) pt"
proof -
  from assms(3) obtain c0 c1 c2 c3 where c: "bounds p = Some (c0, c1, c2, c3)"
    by (auto simp: in_bounds_def split: option.splits)
  obtain p0 p1 p2 p3 where pb: "pb = (p0, p1, p2, p3)" by (cases pb)
  from assms(1) c pb have "c2 \<le> p0 \<or> p2 \<le> c0 \<or> c3 \<le> p1 \<or> p3 \<le> c1"
    by (simp add: box_apart_def)
  moreover from assms(3) c have "c0 \<le> fst pt" "fst pt \<le> c2" "c1 \<le> snd pt" "snd pt \<le> c3"
    by (simp_all add: in_bounds_def)
  moreover from assms(4,2) pb have "p0 \<le> fst pt" "fst pt \<le> p2" "p1 \<le> snd pt" "snd pt \<le> p3"
    by (simp_all add: in_bounds_def)
  ultimately show ?thesis
    unfolding c assms(2) pb by (auto simp: strictly_in_bounds_def)
qed

lemma no_conflict_common_point:
  assumes nc: "\<not> conflict ker p q"
    and exact: "\<And>p q pt. inside p pt \<Longrightarrow> inside q pt \<Longrightarrow> intersects ker p q"
    and inbox: "\<And>p pt. inside p pt \<Longrightarrow> in_bounds (bounds p) pt"
    and "inside p pt" and "inside q pt"
  shows "\<not> strictly_in_bounds (bounds p) pt \<and> \<not> strictly_in_bounds (bounds q) pt"
proof -
  from exact[OF assms(4,5)] have i: "intersects ker p q" .
  from inbox[OF assms(4)] have wp: "in_bounds (bounds p) pt" .
  from inbox[OF assms(5)] have wq: "in_bounds (bounds q) pt" .
  then obtain pb where pb: "bounds q = Some pb" by (auto simp: in_bounds_def split: option.splits)
  with nc i have "box_apart (bounds p) pb" by (simp add: conflict_def)
  from apart_common_point[OF this pb wp wq] show ?thesis .
qed

lemma box_kernel_exact:
  "in_box p pt \<Longrightarrow> in_box q pt \<Longrightarrow> intersects box_kernel p q"
  by (auto simp: in_box_def in_bounds_def box_kernel_def box_intersects_def split: option.splits)

text \<open>
  Claim C2. For every run that returns and every two distinct entries of the placed list,
  the final polygons do not overlap under the exact geometric test: whenever the library's
  \<^verbatim>\<open>intersects\<close> is exact (it holds of every two polygons whose regions have a common
  point, and a region lies within the bounding box of its polygon), a point common to the
  regions of the two placed polygons lies strictly inside neither bounding box. So the two
  regions meet at most where their boxes touch, which is contact along an edge or at a
  corner; they share no area, and two placed polygons whose boxes overlap share no point
  at all. The bounding-box test alone does not give this: it is the exact test, applied
  whenever the boxes overlap, that excludes a common point.
\<close>

theorem placed_polygons_do_not_overlap:
  assumes "run ker patterns fabric_width max_length cancel_flag = Inr (placed, unplaced)"
    and exact: "\<And>p q pt. inside p pt \<Longrightarrow> inside q pt \<Longrightarrow> intersects ker p q"
    and inbox: "\<And>p pt. inside p pt \<Longrightarrow> in_bounds (bounds p) pt"
    and "i < length placed" and "j < length placed" and "i \<noteq> j"
    and "inside (poly (placed ! i)) pt" and "inside (poly (placed ! j)) pt"
  shows "\<not> strictly_in_bounds (bounds (poly (placed ! i))) pt
       \<and> \<not> strictly_in_bounds (bounds (poly (placed ! j))) pt"
proof (cases "i < j")
  case True
  from placed_pairs_not_in_conflict[OF assms(1), rule_format, OF assms(5) True]
  have "\<not> conflict ker (poly (placed ! j)) (poly (placed ! i))" .
  from no_conflict_common_point[of ker _ _ inside, OF this exact inbox assms(8,7)]
  show ?thesis by simp
next
  case False
  with assms(6) have "j < i" by simp
  from placed_pairs_not_in_conflict[OF assms(1), rule_format, OF assms(4) this]
  have "\<not> conflict ker (poly (placed ! i)) (poly (placed ! j))" .
  from no_conflict_common_point[of ker _ _ inside, OF this exact inbox assms(7,8)]
  show ?thesis .
qed

theorem placed_polygons_witness:
  "run box_kernel
     [\<lparr>style = ''Style_A'', item_id = ''s1'', poly = rect 4 4\<rparr>,
      \<lparr>style = ''Style_A'', item_id = ''s2'', poly = rect 4 4\<rparr>] 4 100 None
   = Inr ([\<lparr>style = ''Style_A'', item_id = ''s1'', poly = [(0, 0), (4, 0), (4, 4), (0, 4)]\<rparr>,
           \<lparr>style = ''Style_A'', item_id = ''s2'', poly = [(4, 0), (8, 0), (8, 4), (4, 4)]\<rparr>],
          [])
   \<and> in_box [(0, 0), (4, 0), (4, 4), (0, 4)] (4, 2)
   \<and> in_box [(4, 0), (8, 0), (8, 4), (4, 4)] (4, 2)
   \<and> \<not> strictly_in_bounds (bounds [(0, 0), (4, 0), (4, 4), (0, 4)]) (4, 2)
   \<and> \<not> strictly_in_bounds (bounds [(4, 0), (8, 0), (8, 4), (4, 4)]) (4, 2)"
proof -
  let ?A = "\<lparr>style = ''Style_A'', item_id = ''s1'', poly = [(0, 0), (4, 0), (4, 4), (0, 4)]\<rparr>"
  let ?B = "\<lparr>style = ''Style_A'', item_id = ''s2'', poly = [(4, 0), (8, 0), (8, 4), (4, 4)]\<rparr>"
  have r: "run box_kernel
     [\<lparr>style = ''Style_A'', item_id = ''s1'', poly = rect 4 4\<rparr>,
      \<lparr>style = ''Style_A'', item_id = ''s2'', poly = rect 4 4\<rparr>] 4 100 None
   = Inr ([?A, ?B], [])"
    by (simp add: eval_defs)
  have a: "in_box (poly ([?A, ?B] ! 0)) (4, 2)" by (simp add: in_box_def in_bounds_def)
  have b: "in_box (poly ([?A, ?B] ! 1)) (4, 2)" by (simp add: in_box_def in_bounds_def)
  have i: "\<And>p pt. in_box p pt \<Longrightarrow> in_bounds (bounds p) pt" by (simp add: in_box_def)
  have l: "(0::nat) < length [?A, ?B]" "(1::nat) < length [?A, ?B]" "(0::nat) \<noteq> 1" by simp_all
  from placed_polygons_do_not_overlap[of box_kernel _ 4 100 None "[?A, ?B]" "[]" in_box 0 1 "(4, 2)",
      OF r box_kernel_exact i l a b] a b r
  show ?thesis by simp
qed

section \<open>Lane order of the y scan\<close>

lemma py_int_nonneg: "0 \<le> x \<Longrightarrow> py_int x = \<lfloor>x\<rfloor>"
  by (simp add: py_int_def)

lemma floor_of_int_div3: "\<lfloor>(of_int m :: real) / 3\<rfloor> = m div 3"
  using floor_divide_of_int_eq[of m 3, where ?'a = real] by simp

lemma py_int_of_int_div3: "0 \<le> m \<Longrightarrow> py_int (of_int m / 3) = m div 3"
  by (simp add: py_int_nonneg floor_of_int_div3)

text \<open>
  Claim C6, as the code has it. For a surviving orientation of height \<open>h\<close> the y positions
  are multiples of the 3 cm step. If the style ends with \<open>_A\<close> (which covers the style
  \<open>Style_A\<close>), or the truncated half-width is \<open>0\<close>, they ascend from \<open>0\<close> to the greatest
  multiple not above \<open>width - h\<close>. For every other style the scan starts at the greatest
  multiple of 3 not above the truncated half-width \<open>\<lfloor>width / 2\<rfloor>\<close>, which is less than 3 below
  it; it ascends to the greatest multiple not above \<open>width - h\<close> and then wraps to the
  multiples from \<open>0\<close> up to the one before the start.
\<close>

theorem y_scan_order:
  assumes "0 \<le> h" and "h \<le> fabric_width"
  shows "y_candidates fabric_width h (start_y_of fabric_width st) =
     (if endswith st ''_A'' \<or> \<lfloor>fabric_width / 2\<rfloor> = 0
      then map (\<lambda>k. of_int k * 3) [0..\<lfloor>(fabric_width - h) / 3\<rfloor>]
      else map (\<lambda>k. of_int k * 3) [\<lfloor>fabric_width / 2\<rfloor> div 3..\<lfloor>(fabric_width - h) / 3\<rfloor>]
           @ map (\<lambda>k. of_int k * 3) [0..\<lfloor>fabric_width / 2\<rfloor> div 3 - 1])
   \<and> 3 * (\<lfloor>fabric_width / 2\<rfloor> div 3) \<le> \<lfloor>fabric_width / 2\<rfloor>
   \<and> \<lfloor>fabric_width / 2\<rfloor> < 3 * (\<lfloor>fabric_width / 2\<rfloor> div 3) + 3
   \<and> of_int \<lfloor>(fabric_width - h) / 3\<rfloor> * 3 \<le> fabric_width - h"
proof -
  from assms have w: "0 \<le> fabric_width" by simp
  then have hw: "0 \<le> \<lfloor>fabric_width / 2\<rfloor>" by simp
  have a: "py_int (fabric_width / 2) = \<lfloor>fabric_width / 2\<rfloor>"
    using w by (simp add: py_int_nonneg)
  have b: "py_int ((fabric_width - h) / 3) = \<lfloor>(fabric_width - h) / 3\<rfloor>"
    using assms by (simp add: py_int_nonneg)
  have c: "py_int (of_int \<lfloor>fabric_width / 2\<rfloor> / 3) = \<lfloor>fabric_width / 2\<rfloor> div 3"
    using hw by (rule py_int_of_int_div3)
  have e: "y_candidates fabric_width h (start_y_of fabric_width st) =
     (if endswith st ''_A'' \<or> \<lfloor>fabric_width / 2\<rfloor> = 0
      then map (\<lambda>k. of_int k * 3) [0..\<lfloor>(fabric_width - h) / 3\<rfloor>]
      else map (\<lambda>k. of_int k * 3) [\<lfloor>fabric_width / 2\<rfloor> div 3..\<lfloor>(fabric_width - h) / 3\<rfloor>]
           @ map (\<lambda>k. of_int k * 3) [0..\<lfloor>fabric_width / 2\<rfloor> div 3 - 1])"
  proof (cases "endswith st ''_A'' \<or> st = ''Style_A''")
    case True
    then have "endswith st ''_A''" by (auto simp: endswith_def)
    then show ?thesis by (simp add: y_candidates_def start_y_of_def py_range_def b)
  next
    case False
    then have n: "\<not> endswith st ''_A''" by simp
    show ?thesis
    proof (cases "\<lfloor>fabric_width / 2\<rfloor> = 0")
      case True
      with False show ?thesis by (simp add: y_candidates_def start_y_of_def py_range_def a b)
    next
      case F2: False
      with hw have "0 < \<lfloor>fabric_width / 2\<rfloor>" by linarith
      with False F2 n show ?thesis
        by (simp add: y_candidates_def start_y_of_def py_range_def a b c)
    qed
  qed
  have f: "of_int \<lfloor>(fabric_width - h) / 3\<rfloor> * 3 \<le> fabric_width - h"
  proof -
    have "of_int \<lfloor>(fabric_width - h) / 3\<rfloor> \<le> (fabric_width - h) / 3" by (rule of_int_floor_le)
    then show ?thesis by simp
  qed
  have g: "3 * (\<lfloor>fabric_width / 2\<rfloor> div 3) \<le> \<lfloor>fabric_width / 2\<rfloor>"
    "\<lfloor>fabric_width / 2\<rfloor> < 3 * (\<lfloor>fabric_width / 2\<rfloor> div 3) + 3"
    by presburger+
  from e f g show ?thesis by blast
qed

theorem y_scan_order_witness:
  "(0::real) \<le> 1 \<and> (1::real) \<le> 10
   \<and> y_candidates 10 1 (start_y_of 10 ''Style_B'') = map (\<lambda>k. of_int k * 3) [1..3] @ map (\<lambda>k. of_int k * 3) [0..0]"
proof -
  have h: "(0::real) \<le> 1" "(1::real) \<le> 10" by simp_all
  have e: "endswith ''Style_B'' ''_A'' = False" by (simp add: endswith_def)
  have f: "\<lfloor>(10::real) / 2\<rfloor> = 5" "\<lfloor>((10::real) - 1) / 3\<rfloor> = 3" by simp_all
  from y_scan_order[OF h, of "''Style_B''"] show ?thesis unfolding e f by simp
qed

text \<open>
  Counterexample to C6 as stated. On a sheet of width 10, a panel of height 1 whose style
  is not of lane A is scanned at \<open>y = 3, 6, 9\<close> and then \<open>0\<close>: the scan starts at 3, below the
  half-height 5.
\<close>

theorem y_scan_starts_below_half_height:
  "y_candidates 10 1 (start_y_of 10 ''Style_B'') = [3, 6, 9, 0]"
  by (simp add: eval_defs)

section \<open>Every panel is recorded once\<close>

text \<open>\<open>quiet cancel_flag a b\<close>: the calls numbered from \<open>a\<close> up to \<open>b - 1\<close> answer no;
  \<open>never\<close>: every call does. A panel takes nine calls when none answers yes: one before
  the panel and one before each orientation. An entry is identified by its style and id.\<close>

definition quiet :: "(nat \<Rightarrow> bool) option \<Rightarrow> nat \<Rightarrow> nat \<Rightarrow> bool" where
  "quiet cancel_flag a b =
     (case cancel_flag of None \<Rightarrow> True | Some f \<Rightarrow> \<forall>n. a \<le> n \<and> n < b \<longrightarrow> \<not> f n)"


definition tick :: "(nat \<Rightarrow> bool) option \<Rightarrow> nat \<Rightarrow> nat \<Rightarrow> nat" where
  "tick cancel_flag n k = (case cancel_flag of None \<Rightarrow> n | Some f \<Rightarrow> n + k)"

definition key :: "item \<Rightarrow> string \<times> string" where
  "key it = (style it, item_id it)"

definition recorded :: "nest \<Rightarrow> (string \<times> string) multiset" where
  "recorded s = mset (map key (placed_items s)) + mset (map key (unplaced_items s))"


lemma poll_quiet: "quiet cf n (Suc n) \<Longrightarrow> poll cf n = (False, tick cf n 1)"
  by (auto simp: quiet_def poll_def tick_def split: option.splits)

lemma quiet_mono: "quiet cf a b \<Longrightarrow> a \<le> a' \<Longrightarrow> b' \<le> b \<Longrightarrow> quiet cf a' b'"
  by (auto simp: quiet_def split: option.splits)

lemma tick_tick: "tick cf (tick cf n a) b = tick cf n (a + b)"
  by (simp add: tick_def split: option.splits)

lemma tick_le: "tick cf n k \<le> n + k"
  by (simp add: tick_def split: option.splits)

lemma quiet_tick: "quiet cf n b \<Longrightarrow> quiet cf (tick cf n k) b"
  by (auto simp: quiet_def tick_def split: option.splits)

lemma rotate_eq_Nil: "rotate ker p a = [] \<longleftrightarrow> p = []"
  by (simp add: rotate_def Let_def split: prod.splits)

lemma scale_eq_Nil: "scale ker p f = [] \<longleftrightarrow> p = []"
  by (simp add: scale_def Let_def split: prod.splits)

lemma orient_eq_Nil: "orient ker p v = [] \<longleftrightarrow> p = []"
  by (cases v) (simp add: orient_def Let_def rotate_eq_Nil scale_eq_Nil)

lemma variant_candidate_total:
  "base \<noteq> [] \<Longrightarrow> \<exists>r. variant_candidate ker fw ml pbs pps sy base bs v = Inr r"
proof -
  assume "base \<noteq> []"
  then have "bounds (orient ker base v) \<noteq> None"
    by (simp add: bounds_None_iff orient_eq_Nil)
  then show ?thesis
    by (auto simp: variant_candidate_def Let_def split: option.splits)
qed

lemma variant_candidate_Inl:
  "variant_candidate ker fw ml pbs pps sy base bs v = Inl e \<Longrightarrow> base = []"
  using variant_candidate_total[of base ker fw ml pbs pps sy bs v] by auto

lemma try_variant_total:
  "base \<noteq> [] \<Longrightarrow> \<exists>b. try_variant ker fw ml pbs pps sy base best v = Inr b"
  using variant_candidate_total[of base ker fw ml pbs pps sy "fst best" v]
  by (auto simp: try_variant_def split: option.splits)

lemma variants_loop_total:
  "base \<noteq> [] \<Longrightarrow> \<exists>b n'. variants_loop ker fw ml cf pbs pps sy base n best vs = Inr (b, n')"
proof (induction vs arbitrary: n best)
  case Nil
  then show ?case by simp
next
  case (Cons v vs)
  obtain c k where p: "poll cf n = (c, k)" by (cases "poll cf n")
  from try_variant_total[OF Cons.prems] obtain b1 where
    t: "try_variant ker fw ml pbs pps sy base best v = Inr b1" by blast
  from Cons.IH[OF Cons.prems, of k b1] p t show ?case by (cases c) auto
qed

lemma variants_loop_quiet:
  "base \<noteq> [] \<Longrightarrow> quiet cf n (n + length vs) \<Longrightarrow>
     \<exists>b. variants_loop ker fw ml cf pbs pps sy base n best vs = Inr (b, tick cf n (length vs))"
proof (induction vs arbitrary: n best)
  case Nil
  then show ?case by (simp add: tick_def split: option.splits)
next
  case (Cons v vs)
  from Cons.prems(2) have "quiet cf n (Suc n)" by (rule quiet_mono) simp_all
  then have p: "poll cf n = (False, tick cf n 1)" by (rule poll_quiet)
  from try_variant_total[OF Cons.prems(1)] obtain b1 where
    t: "try_variant ker fw ml pbs pps sy base best v = Inr b1" by blast
  have "quiet cf (tick cf n 1) (tick cf n 1 + length vs)"
    using Cons.prems(2) by (auto simp: quiet_def tick_def split: option.splits)
  from Cons.IH[OF Cons.prems(1) this, of b1] p t show ?case
    by (auto simp: tick_tick)
qed

lemma length_variants: "length variants = 8"
  by (simp add: variants_def)

lemma place_item_recorded:
  "place_item ker fw ml cf s it = Inr s' \<Longrightarrow> recorded s' = recorded s + {#key it#}"
  by (auto simp: place_item_def recorded_def key_def split: sum.splits option.splits)

lemma place_item_total:
  "poly it \<noteq> [] \<Longrightarrow> \<exists>s'. place_item ker fw ml cf s it = Inr s'"
  using variants_loop_total[of "poly it" ker fw ml cf "placed_bounds s" "placed_polys s"
      "start_y_of fw (style it)" "polls s" "(None, None)" variants]
  by (auto simp: place_item_def split: option.splits)

lemma place_item_polls:
  assumes "poly it \<noteq> []" and "quiet cf (polls s) (polls s + 8)"
    and "place_item ker fw ml cf s it = Inr s'"
  shows "polls s' = tick cf (polls s) 8"
proof -
  from variants_loop_quiet[OF assms(1), of cf "polls s" variants ker fw ml "placed_bounds s"
      "placed_polys s" "start_y_of fw (style it)" "(None, None)"] assms(2)
  obtain b where "variants_loop ker fw ml cf (placed_bounds s) (placed_polys s)
      (start_y_of fw (style it)) (poly it) (polls s) (None, None) variants
        = Inr (b, tick cf (polls s) 8)"
    by (auto simp: length_variants)
  with assms(3) show ?thesis
    by (auto simp: place_item_def split: option.splits prod.splits)
qed



lemma set_sort_patterns: "set (sort_patterns ps) = set ps"
  by (simp add: sort_patterns_def)






section \<open>Cancellation\<close>

lemma recorded_polls: "recorded (s\<lparr>polls := k\<rparr>) = recorded s"
  by (simp add: recorded_def)

lemma run_loop_cancel_at:
  assumes "\<forall>it\<in>set xs. poly it \<noteq> []"
    and "\<forall>n. polls s \<le> n \<and> n < polls s + 9 * length xs \<longrightarrow> \<not> f n"
    and "f (polls s + 9 * length xs)" and "ys \<noteq> []"
  shows "\<exists>s'. run_loop ker fw ml (Some f) s (xs @ ys) = Inr s'
           \<and> recorded s' = recorded s + mset (map key xs)"
  using assms
proof (induction xs arbitrary: s)
  case Nil
  then obtain y ys' where ys: "ys = y # ys'" by (cases ys) auto
  from Nil have "poll (Some f) (polls s) = (True, Suc (polls s))" by (simp add: poll_def)
  then show ?case unfolding ys by (simp add: recorded_polls)
next
  case (Cons x xs)
  from Cons.prems(2) have nf: "\<not> f (polls s)" by simp
  then have p: "poll (Some f) (polls s) = (False, Suc (polls s))" by (simp add: poll_def)
  from Cons.prems(1) have x: "poly x \<noteq> []" and xs: "\<forall>it\<in>set xs. poly it \<noteq> []" by simp_all
  from place_item_total[OF x] obtain s1 where
    t: "place_item ker fw ml (Some f) (s\<lparr>polls := Suc (polls s)\<rparr>) x = Inr s1" by blast
  have q: "quiet (Some f) (polls (s\<lparr>polls := Suc (polls s)\<rparr>)) (polls (s\<lparr>polls := Suc (polls s)\<rparr>) + 8)"
    using Cons.prems(2) by (auto simp: quiet_def)
  from place_item_polls[OF x q t] have ps1: "polls s1 = polls s + 9" by (simp add: tick_def)
  from place_item_recorded[OF t] have r1: "recorded s1 = recorded s + {#key x#}"
    by (simp add: recorded_polls)
  have a: "\<forall>n. polls s1 \<le> n \<and> n < polls s1 + 9 * length xs \<longrightarrow> \<not> f n"
    using Cons.prems(2) unfolding ps1 by auto
  have b: "f (polls s1 + 9 * length xs)"
    using Cons.prems(3) unfolding ps1 by (simp add: algebra_simps)
  from Cons.IH[OF xs a b Cons.prems(4)] obtain s' where
    "run_loop ker fw ml (Some f) s1 (xs @ ys) = Inr s'"
    "recorded s' = recorded s1 + mset (map key xs)" by blast
  with p t r1 show ?case by simp
qed

text \<open>
  Claim C5, as the code has it. The predicate is called before every panel and again
  before each orientation. If the call before panel \<open>k + 1\<close> of the sorted order (the call
  numbered \<open>9 k\<close>) is the first to answer yes, the run stops there: it returns, and the
  placed and unplaced lists together hold exactly the first \<open>k\<close> panels of the sorted
  order; the other panels are in neither list.
\<close>

theorem cancellation_truncates:
  assumes "k < length patterns"
    and "\<forall>it\<in>set (take k (sort_patterns patterns)). poly it \<noteq> []"
    and "\<forall>n<9 * k. \<not> f n" and "f (9 * k)"
  shows "\<exists>placed unplaced.
     run ker patterns fabric_width max_length (Some f) = Inr (placed, unplaced)
     \<and> mset (map key placed) + mset (map key unplaced)
         = mset (map key (take k (sort_patterns patterns)))
     \<and> length placed + length unplaced = k"
proof -
  define xs where "xs = take k (sort_patterns patterns)"
  define ys where "ys = drop k (sort_patterns patterns)"
  have len: "length (sort_patterns patterns) = length patterns"
    by (simp add: sort_patterns_def)
  have lx: "length xs = k" using assms(1) by (simp add: xs_def len)
  have ny: "ys \<noteq> []" using assms(1) by (simp add: ys_def len)
  have sp: "sort_patterns patterns = xs @ ys" by (simp add: xs_def ys_def)
  have a: "\<forall>n. polls init_nest \<le> n \<and> n < polls init_nest + 9 * length xs \<longrightarrow> \<not> f n"
    using assms(3) by (simp add: init_nest_def lx)
  have b: "f (polls init_nest + 9 * length xs)"
    using assms(4) by (simp add: init_nest_def lx)
  from run_loop_cancel_at[OF assms(2)[folded xs_def] a b ny, of ker fabric_width max_length]
  obtain s' where r: "run_loop ker fabric_width max_length (Some f) init_nest (xs @ ys) = Inr s'"
    and rec: "recorded s' = recorded init_nest + mset (map key xs)" by blast
  from rec have m: "mset (map key (placed_items s')) + mset (map key (unplaced_items s'))
      = mset (map key xs)"
    by (simp add: recorded_def init_nest_def)
  from arg_cong[OF m, of size] have "length (placed_items s') + length (unplaced_items s') = k"
    by (simp add: lx)
  moreover from r have "run ker patterns fabric_width max_length (Some f)
      = Inr (placed_items s', unplaced_items s')"
    by (simp add: run_def sp)
  ultimately show ?thesis using m unfolding xs_def by blast
qed

theorem cancellation_truncates_witness:
  "(1::nat) < length [\<lparr>style = ''Style_A'', item_id = ''c1'', poly = rect 4 4\<rparr>,
          \<lparr>style = ''Style_A'', item_id = ''c2'', poly = rect 4 4\<rparr>]
   \<and> (\<exists>placed unplaced.
        run box_kernel [\<lparr>style = ''Style_A'', item_id = ''c1'', poly = rect 4 4\<rparr>,
          \<lparr>style = ''Style_A'', item_id = ''c2'', poly = rect 4 4\<rparr>] 4 100 (Some (\<lambda>n. 9 \<le> n))
          = Inr (placed, unplaced)
        \<and> mset (map key placed) + mset (map key unplaced) = {#(''Style_A'', ''c1'')#}
        \<and> length placed + length unplaced = 1)"
proof -
  let ?ps = "[\<lparr>style = ''Style_A'', item_id = ''c1'', poly = rect 4 4\<rparr>,
          \<lparr>style = ''Style_A'', item_id = ''c2'', poly = rect 4 4\<rparr>]"
  have s: "sort_patterns ?ps = ?ps" by (simp add: eval_defs)
  have a: "(1::nat) < length ?ps" by simp
  have b: "\<forall>it\<in>set (take 1 (sort_patterns ?ps)). poly it \<noteq> []"
    unfolding s by (simp add: rect_def)
  have c: "\<forall>n<9 * 1. \<not> (9::nat) \<le> n" by simp
  have d: "(9::nat) \<le> 9 * 1" by simp
  from cancellation_truncates[of 1 ?ps "\<lambda>n. 9 \<le> n" box_kernel 4 100, OF a b c d]
  show ?thesis unfolding s by (simp add: key_def)
qed

text \<open>
  Counterexample to C5 as stated. The predicate first answers yes at the call before the
  first orientation of the first panel, when no panel has been processed. The orientation
  loop ends, but the current panel is still recorded (as unplaced, although it fits the
  empty sheet); only the call before the second panel stops the run. The two lists hold
  one panel, not none.
\<close>

theorem cancelled_panel_is_recorded:
  "run box_kernel [\<lparr>style = ''Style_A'', item_id = ''d1'', poly = rect 4 1\<rparr>,
          \<lparr>style = ''Style_A'', item_id = ''d2'', poly = rect 4 1\<rparr>] 10 100 (Some (\<lambda>n. 1 \<le> n))
     = Inr ([], [\<lparr>style = ''Style_A'', item_id = ''d1'', poly = rect 4 1\<rparr>])"
  by (simp add: eval_defs)

section \<open>Scoring and selection of the orientation\<close>

text \<open>The candidates of a panel: for each orientation in turn, the compacted placement
  that the scan finds under the best score reached so far (which prunes the x range),
  in the order of the orientations. \<open>lower\<close> is the best score after a candidate.\<close>

definition lower :: "real option \<Rightarrow> poly \<Rightarrow> real option" where
  "lower best_score cp = fst (update_best (best_score, None) cp)"

fun candidates ::
  "kernel \<Rightarrow> real \<Rightarrow> real \<Rightarrow> bbox list \<Rightarrow> poly list \<Rightarrow> int \<Rightarrow> poly \<Rightarrow> real option
     \<Rightarrow> (nat \<times> int) list \<Rightarrow> poly list" where
  "candidates ker fw ml pbs pps sy base bs [] = []"
| "candidates ker fw ml pbs pps sy base bs (v # vs) =
     (case variant_candidate ker fw ml pbs pps sy base bs v of
        Inr (Some cp) \<Rightarrow> cp # candidates ker fw ml pbs pps sy base (lower bs cp) vs
      | _ \<Rightarrow> candidates ker fw ml pbs pps sy base bs vs)"

lemma score_formula: "score (x0, y0, x1, y1) = x1 + 0.001 * y0"
  by (simp add: score_def)

lemma fst_update_best: "fst (update_best (bs, bp) cp) = lower bs cp"
  by (simp add: update_best_def lower_def split: option.splits)

lemma update_best_cases:
  "bounds cp = Some b \<Longrightarrow>
     (improves (score b) bs0 \<and> update_best (bs0, bp0) cp = (Some (score b), Some (cp, b)))
   \<or> (\<not> improves (score b) bs0 \<and> update_best (bs0, bp0) cp = (bs0, bp0))"
  by (simp add: update_best_def)

lemma not_improves: "\<not> improves x bs \<Longrightarrow> \<exists>s. bs = Some s \<and> s \<le> x"
  by (cases bs) (auto simp: improves_def)

lemma improves_le: "improves x (Some s0) \<Longrightarrow> x \<le> s0"
  by (simp add: improves_def)

definition at_most :: "real option \<Rightarrow> real \<Rightarrow> bool" where
  "at_most bs x = (case bs of None \<Rightarrow> False | Some s \<Rightarrow> s \<le> x)"

lemma at_most_trans: "at_most bs x \<Longrightarrow> x \<le> y \<Longrightarrow> at_most bs y"
  by (auto simp: at_most_def split: option.splits)

lemma variants_loop_min:
  assumes "variants_loop ker fw ml cf pbs pps sy base n (bs0, bp0) vs = Inr ((bs, bp), n')"
    and "quiet cf n (n + length vs)"
  shows "(\<forall>c\<in>set (candidates ker fw ml pbs pps sy base bs0 vs).
            \<exists>b'. bounds c = Some b' \<and> at_most bs (score b'))
       \<and> ((bs, bp) = (bs0, bp0)
           \<or> (\<exists>c\<in>set (candidates ker fw ml pbs pps sy base bs0 vs).
                \<exists>b. bounds c = Some b \<and> bs = Some (score b) \<and> bp = Some (c, b)))
       \<and> (\<forall>s0. bs0 = Some s0 \<longrightarrow> at_most bs s0)"
  using assms
proof (induction vs arbitrary: n bs0 bp0)
  case Nil
  then show ?case by (auto simp: at_most_def)
next
  case (Cons v vs)
  from Cons.prems(2) have "quiet cf n (Suc n)" by (rule quiet_mono) simp_all
  then have p: "poll cf n = (False, tick cf n 1)" by (rule poll_quiet)
  have q: "quiet cf (tick cf n 1) (tick cf n 1 + length vs)"
    using Cons.prems(2) by (auto simp: quiet_def tick_def split: option.splits)
  from Cons.prems(1) p obtain b1 where
    t: "try_variant ker fw ml pbs pps sy base (bs0, bp0) v = Inr b1"
    and r: "variants_loop ker fw ml cf pbs pps sy base (tick cf n 1) b1 vs = Inr ((bs, bp), n')"
    by (auto split: sum.splits)
  obtain bs1 bp1 where b1: "b1 = (bs1, bp1)" by (cases b1)
  note IH = Cons.IH[OF r[unfolded b1] q]
  from t obtain res where vc: "variant_candidate ker fw ml pbs pps sy base bs0 v = Inr res"
    by (auto simp: try_variant_def split: sum.splits)
  show ?case
  proof (cases res)
    case None
    with vc t b1 have e: "bs1 = bs0" "bp1 = bp0" by (auto simp: try_variant_def)
    from None vc have c: "candidates ker fw ml pbs pps sy base bs0 (v # vs)
        = candidates ker fw ml pbs pps sy base bs0 vs" by simp
    from IH show ?thesis unfolding c e .
  next
    case (Some cp)
    with vc t b1 have u: "update_best (bs0, bp0) cp = (bs1, bp1)" by (auto simp: try_variant_def)
    then have l: "lower bs0 cp = bs1" using fst_update_best[of bs0 bp0 cp] by simp
    from Some vc have c: "candidates ker fw ml pbs pps sy base bs0 (v # vs)
        = cp # candidates ker fw ml pbs pps sy base bs1 vs" by (simp add: l)
    from Some vc variant_candidate_Some[of ker fw ml pbs pps sy base bs0 v cp]
    obtain b where b: "bounds cp = Some b" by auto
    from IH have A: "\<forall>c\<in>set (candidates ker fw ml pbs pps sy base bs1 vs).
            \<exists>b'. bounds c = Some b' \<and> at_most bs (score b')"
      and B: "(bs, bp) = (bs1, bp1)
           \<or> (\<exists>c\<in>set (candidates ker fw ml pbs pps sy base bs1 vs).
                \<exists>b. bounds c = Some b \<and> bs = Some (score b) \<and> bp = Some (c, b))"
      and C: "\<forall>s0. bs1 = Some s0 \<longrightarrow> at_most bs s0" by blast+
    from update_best_cases[OF b, of bs0 bp0] u
    consider (imp) "improves (score b) bs0" "bs1 = Some (score b)" "bp1 = Some (cp, b)"
      | (keep) "\<not> improves (score b) bs0" "bs1 = bs0" "bp1 = bp0" by auto
    then show ?thesis
    proof cases
      case imp
      from C imp(2) have m: "at_most bs (score b)" by simp
      have A': "\<forall>c\<in>set (cp # candidates ker fw ml pbs pps sy base bs1 vs).
            \<exists>b'. bounds c = Some b' \<and> at_most bs (score b')"
      proof
        fix c assume "c \<in> set (cp # candidates ker fw ml pbs pps sy base bs1 vs)"
        then consider "c = cp" | "c \<in> set (candidates ker fw ml pbs pps sy base bs1 vs)"
          by auto
        then show "\<exists>b'. bounds c = Some b' \<and> at_most bs (score b')"
          using A b m by cases blast+
      qed
      have B': "(bs, bp) = (bs0, bp0)
           \<or> (\<exists>c\<in>set (cp # candidates ker fw ml pbs pps sy base bs1 vs).
                \<exists>b. bounds c = Some b \<and> bs = Some (score b) \<and> bp = Some (c, b))"
        using B imp(2,3) b by (simp only: set_simps) blast
      have C': "\<forall>s0. bs0 = Some s0 \<longrightarrow> at_most bs s0"
        using m imp(1) by (auto intro: at_most_trans improves_le)
      from A' B' C' show ?thesis unfolding c by blast
    next
      case keep
      from not_improves[OF keep(1)] obtain s0 where s0: "bs0 = Some s0" "s0 \<le> score b" by blast
      from C keep(2) s0 have m0: "at_most bs s0" by simp
      then have m: "at_most bs (score b)" using s0(2) by (rule at_most_trans)
      have A': "\<forall>c\<in>set (cp # candidates ker fw ml pbs pps sy base bs1 vs).
            \<exists>b'. bounds c = Some b' \<and> at_most bs (score b')"
      proof
        fix c assume "c \<in> set (cp # candidates ker fw ml pbs pps sy base bs1 vs)"
        then consider "c = cp" | "c \<in> set (candidates ker fw ml pbs pps sy base bs1 vs)"
          by auto
        then show "\<exists>b'. bounds c = Some b' \<and> at_most bs (score b')"
          using A b m by cases blast+
      qed
      have B': "(bs, bp) = (bs0, bp0)
           \<or> (\<exists>c\<in>set (cp # candidates ker fw ml pbs pps sy base bs1 vs).
                \<exists>b. bounds c = Some b \<and> bs = Some (score b) \<and> bp = Some (c, b))"
        using B keep(2,3) by (simp only: set_simps) blast
      have C': "\<forall>s0. bs0 = Some s0 \<longrightarrow> at_most bs s0"
        using C keep(2) by simp
      from A' B' C' show ?thesis unfolding c by blast
    qed
  qed
qed

text \<open>
  Claim C3, as the code has it. For a panel whose orientation loop is not ended by
  cancellation: the score of a candidate is \<open>xmax + 0.001 ymin\<close> of its bounds
  (\<open>score_formula\<close>); if the orientations yield no candidate the panel is appended to the
  unplaced list and the sheet is unchanged; otherwise a candidate of least score among all
  candidates is appended to the placed list and to the sheet.
\<close>

theorem best_orientation_is_committed:
  assumes "place_item ker fw ml cancel_flag s it = Inr s'"
    and "quiet cancel_flag (polls s) (polls s + 8)"
  shows "(candidates ker fw ml (placed_bounds s) (placed_polys s)
            (start_y_of fw (style it)) (poly it) None variants = []
          \<and> placed_items s' = placed_items s \<and> placed_polys s' = placed_polys s
          \<and> unplaced_items s' = unplaced_items s @ [it])
       \<or> (\<exists>cp b. cp \<in> set (candidates ker fw ml (placed_bounds s) (placed_polys s)
                                (start_y_of fw (style it)) (poly it) None variants)
            \<and> bounds cp = Some b
            \<and> (\<forall>c\<in>set (candidates ker fw ml (placed_bounds s) (placed_polys s)
                                (start_y_of fw (style it)) (poly it) None variants).
                  \<exists>b'. bounds c = Some b' \<and> score b \<le> score b')
            \<and> placed_items s' = placed_items s
                  @ [\<lparr>style = style it, item_id = item_id it, poly = cp\<rparr>]
            \<and> placed_polys s' = placed_polys s @ [cp]
            \<and> unplaced_items s' = unplaced_items s)"
proof -
  let ?cs = "candidates ker fw ml (placed_bounds s) (placed_polys s)
      (start_y_of fw (style it)) (poly it) None variants"
  from assms(1) obtain bs bp n where
    v: "variants_loop ker fw ml cancel_flag (placed_bounds s) (placed_polys s)
          (start_y_of fw (style it)) (poly it) (polls s) (None, None) variants = Inr ((bs, bp), n)"
    by (auto simp: place_item_def split: sum.splits)
  from assms(2) have q: "quiet cancel_flag (polls s) (polls s + length variants)"
    by (simp add: length_variants)
  from variants_loop_min[OF v q] have
    A: "\<forall>c\<in>set ?cs. \<exists>b'. bounds c = Some b' \<and> at_most bs (score b')"
    and B: "(bs, bp) = (None, None)
       \<or> (\<exists>c\<in>set ?cs. \<exists>b. bounds c = Some b \<and> bs = Some (score b) \<and> bp = Some (c, b))"
    by blast+
  show ?thesis
  proof (cases bp)
    case None
    with B have "bs = None" by auto
    with A have "?cs = []" by (cases ?cs) (auto simp: at_most_def)
    moreover from v assms(1) None have
      "s' = s\<lparr>unplaced_items := unplaced_items s @ [it], polls := n\<rparr>"
      by (simp add: place_item_def)
    ultimately show ?thesis by simp
  next
    case (Some cb)
    obtain cp b where cb: "cb = (cp, b)" by (cases cb)
    from v assms(1) Some cb have s': "s' = s\<lparr>placed_items := placed_items s @
          [\<lparr>style = style it, item_id = item_id it, poly = cp\<rparr>],
        placed_polys := placed_polys s @ [cp], placed_bounds := placed_bounds s @ [b], polls := n\<rparr>"
      by (simp add: place_item_def)
    from B Some cb have m: "cp \<in> set ?cs" "bounds cp = Some b" "bs = Some (score b)" by auto
    have mn: "\<forall>c\<in>set ?cs. \<exists>b'. bounds c = Some b' \<and> score b \<le> score b'"
    proof
      fix c assume "c \<in> set ?cs"
      with A obtain b' where "bounds c = Some b'" "at_most bs (score b')" by blast
      with m(3) show "\<exists>b'. bounds c = Some b' \<and> score b \<le> score b'"
        by (simp add: at_most_def)
    qed
    have "placed_items s' = placed_items s
              @ [\<lparr>style = style it, item_id = item_id it, poly = cp\<rparr>]"
      "placed_polys s' = placed_polys s @ [cp]" "unplaced_items s' = unplaced_items s"
      unfolding s' by simp_all
    with m(1,2) mn show ?thesis by blast
  qed
qed


theorem best_orientation_witness:
  "quiet None (polls init_nest) (polls init_nest + 8)
   \<and> place_item box_kernel 10 100 None init_nest
         \<lparr>style = ''Style_A'', item_id = ''w1'', poly = rect 4 1\<rparr>
       = Inr \<lparr>placed_items = [\<lparr>style = ''Style_A'', item_id = ''w1'',
                                  poly = [(1, 0), (1, 4), (0, 4), (0, 0)]\<rparr>],
               unplaced_items = [], placed_polys = [[(1, 0), (1, 4), (0, 4), (0, 0)]],
               placed_bounds = [(0, 0, 1, 4)], polls = 0\<rparr>
   \<and> [(1, 0), (1, 4), (0, 4), (0, 0)]
        \<in> set (candidates box_kernel 10 100 [] [] 0 (rect 4 1) None variants)"
proof -
  let ?it = "\<lparr>style = ''Style_A'', item_id = ''w1'', poly = rect 4 1\<rparr>"
  let ?s = "\<lparr>placed_items = [\<lparr>style = ''Style_A'', item_id = ''w1'',
                                  poly = [(1, 0), (1, 4), (0, 4), (0, 0)]\<rparr>],
               unplaced_items = [], placed_polys = [[(1, 0), (1, 4), (0, 4), (0, 0)]],
               placed_bounds = [(0, 0, 1, 4)], polls = 0\<rparr>"
  have q: "quiet None (polls init_nest) (polls init_nest + 8)" by (simp add: quiet_def)
  have p: "place_item box_kernel 10 100 None init_nest ?it = Inr ?s"
    by (simp add: eval_defs)
  have e: "placed_bounds init_nest = []" "placed_polys init_nest = []"
    "placed_items init_nest = []" "start_y_of 10 (style ?it) = 0" "poly ?it = rect 4 1"
    by (simp_all add: init_nest_def start_y_of_def endswith_def)
  from best_orientation_is_committed[OF p q] have
    "[(1, 0), (1, 4), (0, 4), (0, 0)]
        \<in> set (candidates box_kernel 10 100 [] [] 0 (rect 4 1) None variants)"
    unfolding e by auto
  with p q show ?thesis by blast
qed

text \<open>
  Counterexample to C3 as stated. A 4 x 1 panel on an empty sheet, with a predicate that
  answers yes at its third call (before the second orientation). The loop over the
  orientations ends there and the first orientation is committed, with score 4, although
  the orientation turned by 90 degrees yields a candidate of score 1.
\<close>

theorem cancelled_search_commits_worse_orientation:
  "run box_kernel [\<lparr>style = ''Style_A'', item_id = ''e1'', poly = rect 4 1\<rparr>] 10 100
       (Some (\<lambda>n. n = 2))
     = Inr ([\<lparr>style = ''Style_A'', item_id = ''e1'', poly = [(0, 0), (4, 0), (4, 1), (0, 1)]\<rparr>], [])
   \<and> variant_candidate box_kernel 10 100 [] [] 0 (rect 4 1) (Some 4) (90, 1)
     = Inr (Some [(1, 0), (1, 4), (0, 4), (0, 0)])
   \<and> bounds [(1, 0), (1, 4), (0, 4), (0, 0)] = Some (0, 0, 1, 4)
   \<and> bounds [(0, 0), (4, 0), (4, 1), (0, 1)] = Some (0, 0, 4, 1)
   \<and> score (0, 0, 1, 4) < score (0, 0, 4, 1)"
  by (simp add: eval_defs)

section \<open>Pruning of the x range\<close>




lemma fold_min_le: "fold (\<lambda>q m. min (f q) m) ps (x::real) \<le> x"
proof (induction ps arbitrary: x)
  case Nil
  show ?case by simp
next
  case (Cons a ps)
  have "fold (\<lambda>q m. min (f q) m) ps (min (f a) x) \<le> min (f a) x" by (rule Cons.IH)
  then show ?case by simp
qed

lemma fold_max_ge: "(x::real) \<le> fold (\<lambda>q m. max (f q) m) ps x"
proof (induction ps arbitrary: x)
  case Nil
  show ?case by simp
next
  case (Cons a ps)
  have "max (f a) x \<le> fold (\<lambda>q m. max (f q) m) ps (max (f a) x)" by (rule Cons.IH)
  then show ?case by simp
qed

lemma bounds_ordered:
  assumes "bounds p = Some (b0, b1, b2, b3)"
  shows "b0 \<le> b2 \<and> b1 \<le> b3"
proof (cases p)
  case Nil
  with assms show ?thesis by simp
next
  case (Cons a ps)
  obtain x y where a: "a = (x, y)" by (cases a)
  from assms Cons a have
    "b0 = fold (\<lambda>q m. min (fst q) m) ps x" "b2 = fold (\<lambda>q m. max (fst q) m) ps x"
    "b1 = fold (\<lambda>q m. min (snd q) m) ps y" "b3 = fold (\<lambda>q m. max (snd q) m) ps y"
    by simp_all
  with fold_min_le[of fst ps x] fold_max_ge[of x fst ps]
    fold_min_le[of snd ps y] fold_max_ge[of y snd ps]
  show ?thesis by linarith
qed


subsection \<open>The pruned search against the unpruned search\<close>




















section \<open>Placed polygons are congruent to their panels\<close>

text \<open>\<open>lin v\<close> is the linear part of the orientation \<open>v\<close>: the rotation by the angle about
  the origin, then the reflection \<open>x \<mapsto> - x\<close> if the mirror flag is \<open>-1\<close>. \<open>move v dx dy\<close>
  adds a translation. The rotation and the scaling of the source are about a centroid;
  that changes the translation only.\<close>

definition lin :: "nat \<times> int \<Rightarrow> point \<Rightarrow> point" where
  "lin v q =
     (case v of (angle, mirror) \<Rightarrow> (case q of (x, y) \<Rightarrow>
        (let x' = cos_deg angle * x - sin_deg angle * y;
             y' = sin_deg angle * x + cos_deg angle * y
         in (if mirror = - 1 then - x' else x', y'))))"

definition move :: "nat \<times> int \<Rightarrow> real \<Rightarrow> real \<Rightarrow> point \<Rightarrow> point" where
  "move v dx dy q = (case lin v q of (x, y) \<Rightarrow> (x + dx, y + dy))"

definition sqdist :: "point \<Rightarrow> point \<Rightarrow> real" where
  "sqdist a b = (fst a - fst b)\<^sup>2 + (snd a - snd b)\<^sup>2"

lemma translate_map_lin: "translate (map (lin v) p) dx dy = map (move v dx dy) p"
  by (simp add: translate_def move_def split_def)

lemma variants_cases:
  "v \<in> set variants \<Longrightarrow>
     v = (0, 1) \<or> v = (0, - 1) \<or> v = (90, 1) \<or> v = (90, - 1)
     \<or> v = (180, 1) \<or> v = (180, - 1) \<or> v = (270, 1) \<or> v = (270, - 1)"
  by (auto simp: variants_def)

lemma move_isometry:
  assumes "v \<in> set variants"
  shows "sqdist (move v dx dy a) (move v dx dy b) = sqdist a b"
proof -
  obtain ax ay bx by' where ab: "a = (ax, ay)" "b = (bx, by')" by (cases a, cases b)
  from variants_cases[OF assms] show ?thesis
    unfolding ab
    by (elim disjE) (simp_all add: move_def lin_def sqdist_def cos_deg_def sin_deg_def
        power2_eq_square algebra_simps)
qed

lemma rotate_lin:
  "\<exists>dx dy. rotate ker p angle = translate (map (lin (angle, 1)) p) dx dy"
proof -
  obtain x0 y0 where c: "centroid ker p = (x0, y0)" by (cases "centroid ker p")
  have "rotate ker p angle = translate (map (lin (angle, 1)) p)
      (x0 - x0 * cos_deg angle + y0 * sin_deg angle)
      (y0 - x0 * sin_deg angle - y0 * cos_deg angle)"
    by (simp add: rotate_def c translate_def lin_def Let_def split_def)
  then show ?thesis by blast
qed

lemma scale_lin:
  "\<exists>dx. scale ker (translate (map (lin (angle, 1)) p) ex ey) (- 1)
      = translate (map (lin (angle, - 1)) p) dx ey"
proof -
  define q where "q = translate (map (lin (angle, 1)) p) ex ey"
  obtain x0 y0 where c: "centroid ker q = (x0, y0)" by (cases "centroid ker q")
  have "scale ker q (- 1) = map (\<lambda>(x, y). (- x + (x0 + x0), y)) q"
    by (simp add: scale_def c)
  also have "\<dots> = translate (map (lin (angle, - 1)) p) (x0 + x0 - ex) ey"
    unfolding q_def by (simp add: translate_def lin_def Let_def split_def)
  finally show ?thesis unfolding q_def by blast
qed

lemma orient_lin:
  assumes "v \<in> set variants"
  shows "\<exists>dx dy. orient ker p v = translate (map (lin v) p) dx dy"
proof -
  obtain angle mirror where v: "v = (angle, mirror)" by (cases v)
  from variants_cases[OF assms] v have m: "mirror = 1 \<or> mirror = - 1" by auto
  from rotate_lin[of ker p angle] obtain ex ey where
    r: "rotate ker p angle = translate (map (lin (angle, 1)) p) ex ey" by blast
  from m show ?thesis
  proof
    assume "mirror = 1"
    with r v show ?thesis by (auto simp: orient_def)
  next
    assume m1: "mirror = - 1"
    from scale_lin[of ker angle p ex ey] obtain dx where
      "scale ker (translate (map (lin (angle, 1)) p) ex ey) (- 1)
        = translate (map (lin (angle, - 1)) p) dx ey" by blast
    with r v m1 show ?thesis by (auto simp: orient_def)
  qed
qed

lemma path_sum_translate:
  "p \<noteq> [] \<Longrightarrow> path_sum (translate p dx dy) =
     path_sum p + (dx * (snd (last p) - snd (hd p)) - dy * (fst (last p) - fst (hd p)))"
proof (induction p rule: path_sum.induct)
  case (1 a b ps)
  have t: "translate (a # b # ps) dx dy
      = (fst a + dx, snd a + dy) # translate (b # ps) dx dy"
    by (simp add: translate_def split_def)
  have h: "hd (translate (b # ps) dx dy) = (fst b + dx, snd b + dy)"
    by (simp add: translate_def split_def)
  obtain r where tr: "translate (b # ps) dx dy = (fst b + dx, snd b + dy) # r"
    by (simp add: translate_def split_def)
  have "path_sum (translate (a # b # ps) dx dy)
      = cross (fst a + dx, snd a + dy) (fst b + dx, snd b + dy)
        + path_sum (translate (b # ps) dx dy)"
    unfolding t tr by simp
  also have "\<dots> = cross (fst a + dx, snd a + dy) (fst b + dx, snd b + dy)
        + (path_sum (b # ps)
           + (dx * (snd (last (b # ps)) - snd b) - dy * (fst (last (b # ps)) - fst b)))"
    using "1.IH" by simp
  finally show ?case by (simp add: cross_def algebra_simps)
qed (simp_all add: translate_def split_def)

lemma translate_append: "translate (p @ q) dx dy = translate p dx dy @ translate q dx dy"
  by (simp add: translate_def)

lemma shoelace_translate: "shoelace (translate p dx dy) = shoelace p"
proof (cases p)
  case Nil
  then show ?thesis by (simp add: shoelace_def translate_def)
next
  case (Cons a ps)
  have t: "translate (a # ps) dx dy = (fst a + dx, snd a + dy) # translate ps dx dy"
    by (simp add: translate_def split_def)
  have "shoelace (translate (a # ps) dx dy)
      = path_sum (translate (a # ps) dx dy @ [(fst a + dx, snd a + dy)])"
    unfolding t by (simp add: shoelace_def)
  also have "\<dots> = path_sum (translate ((a # ps) @ [a]) dx dy)"
    by (simp add: translate_def split_def)
  also have "\<dots> = path_sum ((a # ps) @ [a])"
    using path_sum_translate[of "(a # ps) @ [a]" dx dy] by simp
  also have "\<dots> = shoelace (a # ps)" by (simp add: shoelace_def)
  finally show ?thesis unfolding Cons .
qed

definition det :: "nat \<times> int \<Rightarrow> real" where
  "det v = (if snd v = - 1 then - 1 else 1)"

lemma cross_lin:
  assumes "v \<in> set variants"
  shows "cross (lin v a) (lin v b) = det v * cross a b"
proof -
  obtain ax ay bx by' where ab: "a = (ax, ay)" "b = (bx, by')" by (cases a, cases b)
  from variants_cases[OF assms] show ?thesis
    unfolding ab
    by (elim disjE) (simp_all add: lin_def cross_def det_def cos_deg_def sin_deg_def)
qed

lemma path_sum_lin:
  assumes "v \<in> set variants"
  shows "path_sum (map (lin v) p) = det v * path_sum p"
proof (induction p rule: path_sum.induct)
  case (1 a b ps)
  then show ?case by (simp add: cross_lin[OF assms] algebra_simps)
qed simp_all

lemma shoelace_lin:
  assumes "v \<in> set variants"
  shows "shoelace (map (lin v) p) = det v * shoelace p"
proof (cases p)
  case Nil
  then show ?thesis by (simp add: shoelace_def)
next
  case (Cons a ps)
  have "shoelace (map (lin v) (a # ps)) = path_sum (map (lin v) ((a # ps) @ [a]))"
    by (simp add: shoelace_def)
  also have "\<dots> = det v * path_sum ((a # ps) @ [a])" by (rule path_sum_lin[OF assms])
  finally show ?thesis unfolding Cons by (simp add: shoelace_def)
qed

lemma area_moved:
  assumes "v \<in> set variants"
  shows "area (translate (map (lin v) p) dx dy) = area p"
proof -
  have "\<bar>det v\<bar> = 1" by (simp add: det_def)
  then show ?thesis
    by (simp add: area_def shoelace_translate shoelace_lin[OF assms] abs_mult)
qed

definition congruent :: "poly \<Rightarrow> poly \<Rightarrow> bool" where
  "congruent q p = (\<exists>v\<in>set variants. \<exists>dx dy. q = map (move v dx dy) p)"

definition from_panel :: "item list \<Rightarrow> item \<Rightarrow> bool" where
  "from_panel its P =
     (\<exists>it\<in>set its. style P = style it \<and> item_id P = item_id it \<and> congruent (poly P) (poly it))"

lemma translate_map_move:
  "translate (map (move v ex ey) p) dx dy = map (move v (ex + dx) (ey + dy)) p"
  by (simp add: translate_def move_def split_def)

lemma best_ok_congruent:
  assumes "best_ok ker pbs pps base (bs, Some (cp, b))"
  shows "congruent cp base"
proof -
  from assms obtain v dx dy where v: "v \<in> set variants"
    and c: "cp = translate (orient ker base v) dx dy"
    by (auto simp: best_ok_def)
  from orient_lin[OF v, of ker base] obtain ex ey where
    "orient ker base v = translate (map (lin v) base) ex ey" by blast
  with c have "cp = map (move v (ex + dx) (ey + dy)) base"
    by (simp add: translate_map_lin translate_map_move)
  with v show ?thesis unfolding congruent_def by blast
qed

lemma place_item_placed_cases:
  assumes "place_item ker fw ml cf s it = Inr s'"
  shows "placed_items s' = placed_items s
     \<or> (\<exists>cp. congruent cp (poly it)
           \<and> placed_items s' = placed_items s
                @ [\<lparr>style = style it, item_id = item_id it, poly = cp\<rparr>])"
proof -
  from assms obtain bs bp n where
    v: "variants_loop ker fw ml cf (placed_bounds s) (placed_polys s) (start_y_of fw (style it))
          (poly it) (polls s) (None, None) variants = Inr ((bs, bp), n)"
    by (auto simp: place_item_def split: sum.splits)
  have "best_ok ker (placed_bounds s) (placed_polys s) (poly it) (None, None)"
    by (simp add: best_ok_def)
  from variants_loop_ok[OF v this] have
    ok: "best_ok ker (placed_bounds s) (placed_polys s) (poly it) (bs, bp)" by simp
  show ?thesis
  proof (cases bp)
    case None
    with v assms show ?thesis by (auto simp: place_item_def)
  next
    case (Some cb)
    obtain cp b where cb: "cb = (cp, b)" by (cases cb)
    from v assms Some cb have "placed_items s' = placed_items s
        @ [\<lparr>style = style it, item_id = item_id it, poly = cp\<rparr>]"
      by (auto simp: place_item_def)
    moreover from ok Some cb have "congruent cp (poly it)"
      using best_ok_congruent by simp
    ultimately show ?thesis by blast
  qed
qed

lemma run_loop_from_panel:
  "run_loop ker fw ml cf s its = Inr s' \<Longrightarrow> \<forall>P\<in>set (placed_items s). from_panel all P \<Longrightarrow>
     set its \<subseteq> set all \<Longrightarrow> \<forall>P\<in>set (placed_items s'). from_panel all P"
proof (induction its arbitrary: s)
  case Nil
  then show ?case by simp
next
  case (Cons it its)
  obtain c k where p: "poll cf (polls s) = (c, k)" by (cases "poll cf (polls s)")
  show ?case
  proof (cases c)
    case True
    with p Cons.prems(1,2) show ?thesis by auto
  next
    case False
    with p Cons.prems(1) obtain s1 where
      t: "place_item ker fw ml cf (s\<lparr>polls := k\<rparr>) it = Inr s1"
      and r: "run_loop ker fw ml cf s1 its = Inr s'"
      by (auto split: sum.splits)
    from Cons.prems(3) have it: "it \<in> set all" and its: "set its \<subseteq> set all" by simp_all
    from place_item_placed_cases[OF t] have
      "placed_items s1 = placed_items s
       \<or> (\<exists>cp. congruent cp (poly it)
           \<and> placed_items s1 = placed_items s
                @ [\<lparr>style = style it, item_id = item_id it, poly = cp\<rparr>])" by simp
    then have "\<forall>P\<in>set (placed_items s1). from_panel all P"
    proof
      assume "placed_items s1 = placed_items s"
      with Cons.prems(2) show ?thesis by simp
    next
      assume "\<exists>cp. congruent cp (poly it)
           \<and> placed_items s1 = placed_items s
                @ [\<lparr>style = style it, item_id = item_id it, poly = cp\<rparr>]"
      then obtain cp where c: "congruent cp (poly it)"
        and e: "placed_items s1 = placed_items s
                @ [\<lparr>style = style it, item_id = item_id it, poly = cp\<rparr>]" by blast
      have "from_panel all \<lparr>style = style it, item_id = item_id it, poly = cp\<rparr>"
        unfolding from_panel_def using it c by (intro bexI[of _ it]) simp_all
      with Cons.prems(2) show ?thesis unfolding e by simp
    qed
    from Cons.IH[OF r this its] show ?thesis .
  qed
qed

text \<open>
  Claim C10. Every entry of the final placed list carries the style and id of an input
  panel, and its polygon is the image of that panel's polygon under a rotation by a
  multiple of 90 degrees, an optional reflection and a translation, applied vertex by
  vertex. Such a map preserves the distance of any two points, and the area of the placed
  polygon equals the area of the panel's polygon.
\<close>

theorem placed_polygon_is_congruent_image:
  assumes "run ker patterns fabric_width max_length cancel_flag = Inr (placed, unplaced)"
    and "P \<in> set placed"
  shows "\<exists>it\<in>set patterns. style P = style it \<and> item_id P = item_id it
     \<and> (\<exists>v\<in>set variants. \<exists>dx dy. poly P = map (move v dx dy) (poly it)
           \<and> (\<forall>a b. sqdist (move v dx dy a) (move v dx dy b) = sqdist a b))
     \<and> area (poly P) = area (poly it)"
proof -
  from assms(1) obtain s where
    r: "run_loop ker fabric_width max_length cancel_flag init_nest (sort_patterns patterns) = Inr s"
    and p: "placed = placed_items s"
    by (auto simp: run_def split: sum.splits)
  have i: "\<forall>P\<in>set (placed_items init_nest). from_panel patterns P"
    by (simp add: init_nest_def)
  have "set (sort_patterns patterns) \<subseteq> set patterns" by (simp add: set_sort_patterns)
  from run_loop_from_panel[OF r i this] assms(2) p have "from_panel patterns P" by simp
  then obtain it v dx dy where it: "it \<in> set patterns" "style P = style it"
    "item_id P = item_id it" and v: "v \<in> set variants"
    and e: "poly P = map (move v dx dy) (poly it)"
    unfolding from_panel_def congruent_def by blast
  have a: "area (poly P) = area (poly it)"
    unfolding e translate_map_lin[symmetric] by (rule area_moved[OF v])
  have d: "\<forall>a b. sqdist (move v dx dy a) (move v dx dy b) = sqdist a b"
    using move_isometry[OF v] by simp
  from it v e a d show ?thesis by blast
qed

theorem placed_polygon_witness:
  "run box_kernel [\<lparr>style = ''Style_A'', item_id = ''g1'', poly = rect 4 1\<rparr>] 10 100 None
     = Inr ([\<lparr>style = ''Style_A'', item_id = ''g1'', poly = [(1, 0), (1, 4), (0, 4), (0, 0)]\<rparr>], [])
   \<and> area [(1, 0), (1, 4), (0, 4), (0, 0)] = area (rect 4 1)
   \<and> (\<exists>v\<in>set variants. \<exists>dx dy. [(1, 0), (1, 4), (0, 4), (0, 0)] = map (move v dx dy) (rect 4 1))"
proof -
  let ?P = "\<lparr>style = ''Style_A'', item_id = ''g1'', poly = [(1, 0), (1, 4), (0, 4), (0, 0)]\<rparr>"
  have r: "run box_kernel [\<lparr>style = ''Style_A'', item_id = ''g1'', poly = rect 4 1\<rparr>] 10 100 None
     = Inr ([?P], [])"
    by (simp add: eval_defs)
  have m: "?P \<in> set [?P]" by simp
  from placed_polygon_is_congruent_image[OF r m] obtain it v dx dy where
    i: "it \<in> set [\<lparr>style = ''Style_A'', item_id = ''g1'', poly = rect 4 1\<rparr>]"
    and v: "v \<in> set variants" and e: "poly ?P = map (move v dx dy) (poly it)"
    and a: "area (poly ?P) = area (poly it)" by blast
  from i have "poly it = rect 4 1" by simp
  with v e a have "area [(1, 0), (1, 4), (0, 4), (0, 0)] = area (rect 4 1)"
    "\<exists>v\<in>set variants. \<exists>dx dy. [(1, 0), (1, 4), (0, 4), (0, 0)] = map (move v dx dy) (rect 4 1)"
    by auto
  with r show ?thesis by blast
qed

section \<open>Degenerate panels\<close>

text \<open>The source has no test for a degenerate polygon. On an empty sheet the first
  orientation of a panel whose bounding box fits the sheet always yields a candidate.\<close>

lemma rotate_0: "rotate ker p 0 = p"
  by (cases "centroid ker p") (simp add: rotate_def cos_deg_def sin_deg_def split_def)

lemma orient_first: "orient ker p (0, 1) = p"
  by (simp add: orient_def rotate_0)

lemma variants_first: "\<exists>vs. variants = (0, 1) # vs"
  by (simp add: variants_def)

lemma overlap_empty: "overlap ker [] [] cp = False"
  by (simp add: overlap_def)

lemma y_candidates_nonempty:
  assumes "0 \<le> h" and "h \<le> fabric_width"
  shows "y_candidates fabric_width h sy \<noteq> []"
proof -
  have n: "0 \<le> py_int ((fabric_width - h) / 3)" using assms by (simp add: py_int_nonneg)
  show ?thesis
  proof (cases "0 < sy")
    case False
    with n show ?thesis by (simp add: y_candidates_def py_range_def)
  next
    case True
    then have a: "py_int (of_int sy / 3) = sy div 3" by (simp add: py_int_of_int_div3)
    show ?thesis
    proof (cases "sy div 3 = 0")
      case True
      with \<open>0 < sy\<close> n a show ?thesis by (simp add: y_candidates_def py_range_def)
    next
      case False
      moreover from \<open>0 < sy\<close> have "0 \<le> sy div 3" by simp
      ultimately have "0 < sy div 3" by simp
      with \<open>0 < sy\<close> a show ?thesis by (simp add: y_candidates_def py_range_def)
    qed
  qed
qed

lemma scan_y_empty_sheet: "yc \<noteq> [] \<Longrightarrow> \<exists>cp. scan_y ker [] [] vpoly x yc = Some cp"
  by (cases yc) (simp_all add: overlap_empty)

lemma scan_x_empty_sheet:
  assumes "yc \<noteq> []" and "0 \<le> k"
  shows "\<exists>cp. scan_x ker [] [] vpoly yc None (py_range 0 (k + 1)) = Some cp"
proof -
  from assms(2) have "py_range 0 (k + 1) = 0 # [1..k]"
    by (simp add: py_range_def upto_rec1)
  moreover from scan_y_empty_sheet[OF assms(1)] obtain cp where
    "scan_y ker [] [] vpoly 0 yc = Some cp" by blast
  ultimately show ?thesis by (simp add: exceeds_def)
qed

lemma first_variant_on_empty_sheet:
  assumes "bounds p = Some (x0, y0, x1, y1)" and "x1 - x0 \<le> ml" and "y1 - y0 \<le> fw"
  shows "\<exists>cp. variant_candidate ker fw ml [] [] sy p None (0, 1) = Inr (Some cp)"
proof -
  from bounds_ordered[OF assms(1)] have o: "0 \<le> x1 - x0" "0 \<le> y1 - y0" by simp_all
  from y_candidates_nonempty[OF o(2) assms(3)] have
    yc: "y_candidates fw (y1 - y0) sy \<noteq> []" .
  from o(1) assms(2) have "0 \<le> (ml - (x1 - x0)) / 3" by simp
  then have k: "0 \<le> \<lceil>(ml - (x1 - x0)) / 3\<rceil>" by (simp add: ceiling_le_iff le_ceiling_iff)
  from scan_x_empty_sheet[OF yc k, of ker "translate p (- x0) (- y0)"] obtain cp where
    "scan_x ker [] [] (translate p (- x0) (- y0)) (y_candidates fw (y1 - y0) sy) None
        (py_range 0 (\<lceil>(ml - (x1 - x0)) / 3\<rceil> + 1)) = Some cp" by blast
  with assms show ?thesis
    by (simp add: variant_candidate_def orient_first Let_def)
qed

lemma update_best_keeps:
  "snd best \<noteq> None \<Longrightarrow> snd (update_best best cp) \<noteq> None"
  by (simp add: update_best_def split: option.splits)

lemma try_variant_keeps:
  assumes "try_variant ker fw ml pbs pps sy base best v = Inr best'" and "snd best \<noteq> None"
  shows "snd best' \<noteq> None"
proof -
  from assms(1) have "best' = best \<or> (\<exists>cp. best' = update_best best cp)"
    by (auto simp: try_variant_def split: sum.splits option.splits)
  then show ?thesis
  proof
    assume "best' = best"
    with assms(2) show ?thesis by simp
  next
    assume "\<exists>cp. best' = update_best best cp"
    then obtain cp where "best' = update_best best cp" by blast
    with update_best_keeps[OF assms(2), of cp] show ?thesis by simp
  qed
qed

lemma variants_loop_keeps:
  "variants_loop ker fw ml cf pbs pps sy base n best vs = Inr (best', n') \<Longrightarrow>
     snd best \<noteq> None \<Longrightarrow> snd best' \<noteq> None"
proof (induction vs arbitrary: n best)
  case Nil
  then show ?case by simp
next
  case (Cons v vs)
  obtain c k where p: "poll cf n = (c, k)" by (cases "poll cf n")
  show ?case
  proof (cases c)
    case True
    with p Cons.prems show ?thesis by simp
  next
    case False
    with p Cons.prems(1) obtain b1 where
      t: "try_variant ker fw ml pbs pps sy base best v = Inr b1"
      and r: "variants_loop ker fw ml cf pbs pps sy base k b1 vs = Inr (best', n')"
      by (auto split: sum.splits)
    from Cons.IH[OF r try_variant_keeps[OF t Cons.prems(2)]] show ?thesis .
  qed
qed

lemma place_item_on_empty_sheet:
  assumes "place_item ker fw ml cf s it = Inr s'"
    and "placed_bounds s = []" and "placed_polys s = []"
    and "bounds (poly it) = Some (x0, y0, x1, y1)" and "x1 - x0 \<le> ml" and "y1 - y0 \<le> fw"
    and "quiet cf (polls s) (Suc (polls s))"
  shows "\<exists>cp. placed_items s' = placed_items s
            @ [\<lparr>style = style it, item_id = item_id it, poly = cp\<rparr>]"
proof -
  from assms(1) obtain bs bp n where
    v: "variants_loop ker fw ml cf [] [] (start_y_of fw (style it))
          (poly it) (polls s) (None, None) variants = Inr ((bs, bp), n)"
    by (auto simp: place_item_def assms(2,3) split: sum.splits)
  from variants_first obtain vs where vs: "variants = (0, 1) # vs" by blast
  from assms(7) have p: "poll cf (polls s) = (False, tick cf (polls s) 1)" by (rule poll_quiet)
  from first_variant_on_empty_sheet[OF assms(4-6), of ker "start_y_of fw (style it)"]
  obtain c0 where c0: "variant_candidate ker fw ml [] [] (start_y_of fw (style it)) (poly it)
      None (0, 1) = Inr (Some c0)" by blast
  from variant_candidate_Some[OF c0] obtain b0 where b0: "bounds c0 = Some b0" by auto
  have t: "try_variant ker fw ml [] [] (start_y_of fw (style it)) (poly it) (None, None) (0, 1)
      = Inr (Some (score b0), Some (c0, b0))"
    by (simp add: try_variant_def c0 update_best_def b0 improves_def)
  from v have r: "variants_loop ker fw ml cf [] [] (start_y_of fw (style it)) (poly it)
      (tick cf (polls s) 1) (Some (score b0), Some (c0, b0)) vs = Inr ((bs, bp), n)"
    unfolding vs by (simp add: p t)
  from variants_loop_keeps[OF r] have "bp \<noteq> None" by simp
  then obtain cp b where bp: "bp = Some (cp, b)" by (cases bp) auto
  from assms(1) v bp have "placed_items s' = placed_items s
            @ [\<lparr>style = style it, item_id = item_id it, poly = cp\<rparr>]"
    by (auto simp: place_item_def assms(2,3))
  then show ?thesis by blast
qed

lemma run_loop_placed_prefix:
  "run_loop ker fw ml cf s its = Inr s' \<Longrightarrow> \<exists>more. placed_items s' = placed_items s @ more"
proof (induction its arbitrary: s)
  case Nil
  then show ?case by simp
next
  case (Cons it its)
  obtain c k where p: "poll cf (polls s) = (c, k)" by (cases "poll cf (polls s)")
  show ?case
  proof (cases c)
    case True
    with p Cons.prems show ?thesis by auto
  next
    case False
    with p Cons.prems obtain s1 where
      t: "place_item ker fw ml cf (s\<lparr>polls := k\<rparr>) it = Inr s1"
      and r: "run_loop ker fw ml cf s1 its = Inr s'"
      by (auto split: sum.splits)
    from place_item_placed_cases[OF t] obtain m1 where
      "placed_items s1 = placed_items s @ m1" by auto
    moreover from Cons.IH[OF r] obtain m2 where "placed_items s' = placed_items s1 @ m2"
      by blast
    ultimately show ?thesis by simp
  qed
qed

text \<open>
  Claim C8, as the code has it. A panel of zero area is searched like any other panel and
  is committed when the search finds a position. In particular the first panel of the
  sorted order is placed, whatever the area of its polygon, whenever the polygon has a
  vertex, its bounding box fits the sheet, and the first two cancellation polls answer no.
\<close>

theorem fitting_first_panel_is_placed:
  assumes "run ker patterns fabric_width max_length cancel_flag = Inr (placed, unplaced)"
    and "sort_patterns patterns = it # rest"
    and "bounds (poly it) = Some (x0, y0, x1, y1)"
    and "x1 - x0 \<le> max_length" and "y1 - y0 \<le> fabric_width"
    and "quiet cancel_flag 0 2"
  shows "\<exists>cp more. placed = \<lparr>style = style it, item_id = item_id it, poly = cp\<rparr> # more"
proof -
  from assms(1,2) obtain s where
    r: "run_loop ker fabric_width max_length cancel_flag init_nest (it # rest) = Inr s"
    and p: "placed = placed_items s"
    by (auto simp: run_def split: sum.splits)
  from assms(6) have "quiet cancel_flag (polls init_nest) (Suc (polls init_nest))"
    by (auto simp: quiet_def init_nest_def split: option.splits)
  then have p0: "poll cancel_flag (polls init_nest) = (False, tick cancel_flag 0 1)"
    using poll_quiet[of cancel_flag "polls init_nest"] by (simp add: init_nest_def)
  let ?s0 = "init_nest\<lparr>polls := tick cancel_flag 0 1\<rparr>"
  from r p0 obtain s1 where
    t: "place_item ker fabric_width max_length cancel_flag ?s0 it = Inr s1"
    and r1: "run_loop ker fabric_width max_length cancel_flag s1 rest = Inr s"
    by (auto split: sum.splits)
  have q: "quiet cancel_flag (polls ?s0) (Suc (polls ?s0))"
    using assms(6) by (auto simp: quiet_def tick_def split: option.splits)
  have e: "placed_bounds ?s0 = []" "placed_polys ?s0 = []" "placed_items ?s0 = []"
    by (simp_all add: init_nest_def)
  from place_item_on_empty_sheet[OF t e(1,2) assms(3-5) q] e(3) obtain cp where
    "placed_items s1 = [\<lparr>style = style it, item_id = item_id it, poly = cp\<rparr>]" by auto
  moreover from run_loop_placed_prefix[OF r1] obtain more where
    "placed_items s = placed_items s1 @ more" by blast
  ultimately show ?thesis unfolding p by simp
qed

theorem fitting_first_panel_witness:
  "run box_kernel [\<lparr>style = ''Style_A'', item_id = ''z1'', poly = [(0, 0), (1, 0), (2, 0)]\<rparr>]
       10 100 None
     = Inr ([\<lparr>style = ''Style_A'', item_id = ''z1'', poly = [(0, 0), (0, 1), (0, 2)]\<rparr>], [])
   \<and> sort_patterns [\<lparr>style = ''Style_A'', item_id = ''z1'', poly = [(0, 0), (1, 0), (2, 0)]\<rparr>]
     = [\<lparr>style = ''Style_A'', item_id = ''z1'', poly = [(0, 0), (1, 0), (2, 0)]\<rparr>]
   \<and> bounds [(0, 0), (1, 0), (2, 0)] = Some (0, 0, 2, 0)
   \<and> quiet None 0 2
   \<and> (\<exists>cp more. [\<lparr>style = ''Style_A'', item_id = ''z1'', poly = [(0, 0), (0, 1), (0, 2)]\<rparr>]
        = \<lparr>style = ''Style_A'', item_id = ''z1'', poly = cp\<rparr> # more)"
proof -
  let ?z = "\<lparr>style = ''Style_A'', item_id = ''z1'', poly = [(0, 0), (1, 0), (2, 0)]\<rparr>"
  have r: "run box_kernel [?z] 10 100 None
     = Inr ([\<lparr>style = ''Style_A'', item_id = ''z1'', poly = [(0, 0), (0, 1), (0, 2)]\<rparr>], [])"
    by (simp add: eval_defs)
  have s: "sort_patterns [?z] = ?z # []" by (simp add: sort_patterns_def)
  have b: "bounds (poly ?z) = Some (0, 0, 2, 0)" by simp
  have w: "(2::real) - 0 \<le> 100" "(0::real) - 0 \<le> 10" by simp_all
  have q: "quiet None 0 2" by (simp add: quiet_def)
  from fitting_first_panel_is_placed[OF r s b w q] r s b q show ?thesis by simp
qed

text \<open>
  Counterexample to C8 as stated. A panel whose polygon is the three collinear points
  \<open>(0,0), (1,0), (2,0)\<close> has area 0. Alone on a sheet of width 10 and maximal length 100 it
  is not reported unplaced: it is committed to the sheet, turned by 90 degrees.
\<close>

theorem zero_area_panel_is_placed:
  "area [(0, 0), (1, 0), (2, 0)] = 0
   \<and> run box_kernel [\<lparr>style = ''Style_A'', item_id = ''flat'', poly = [(0, 0), (1, 0), (2, 0)]\<rparr>]
       10 100 None
     = Inr ([\<lparr>style = ''Style_A'', item_id = ''flat'', poly = [(0, 0), (0, 1), (0, 2)]\<rparr>], [])"
  by (simp add: eval_defs)

text \<open>A polygon without any vertex has NaN bounds; the run raises when it reaches such a
  panel.\<close>

lemma empty_polygon_raises:
  "run box_kernel [\<lparr>style = ''Style_A'', item_id = ''none'', poly = []\<rparr>] 10 100 None
     = Inl ValueError"
  by (simp add: eval_defs)

end
